theory Spec2Isabelle
  imports Main "HOL-Library.Sublist" "HOL-Library.Monad_Syntax"
begin

section \<open>Strings and paths\<close>

text \<open>
  Python strings are modelled as \<open>string\<close>, a character standing for a code point below
  256. The program runs on path names; the functions of \<open>os.path\<close> it calls are modelled
  with their POSIX behaviour (\<open>posixpath\<close>), the separator being \<open>/\<close>.
\<close>

definition newline :: char where
  "newline = CHR 0x0A"

definition dot :: char where
  "dot = CHR ''.''"

definition slash :: char where
  "slash = CHR ''/''"

text \<open>
  \<open>str.lower()\<close>. Below 256 the capital letters are the code points 65 to 90 (\<open>A\<close> to
  \<open>Z\<close>) and 192 to 222 without 215 (the accented capitals of Latin-1, the
  multiplication sign lying between them); the small letter of each is 32 places up.
\<close>

definition lower_char :: "char \<Rightarrow> char" where
  "lower_char c =
     (let n = of_char c :: nat
      in if (65 \<le> n \<and> n \<le> 90) \<or> (192 \<le> n \<and> n \<le> 222 \<and> n \<noteq> 215) then char_of (n + 32)
         else c)"

definition lower :: "string \<Rightarrow> string" where
  "lower s = map lower_char s"

text \<open>
  \<open>os.path.split(p)\<close>: the tail is everything after the final slash, the head
  everything before it, with its trailing slashes stripped unless it consists of
  slashes only.
\<close>

definition rstrip_slash :: "string \<Rightarrow> string" where
  "rstrip_slash s = rev (dropWhile (\<lambda>c. c = slash) (rev s))"

definition os_path_split :: "string \<Rightarrow> string \<times> string" where
  "os_path_split p =
     (let tail = rev (takeWhile (\<lambda>c. c \<noteq> slash) (rev p));
          head = take (length p - length tail) p
      in (if head \<noteq> [] \<and> \<not> (\<forall>c \<in> set head. c = slash) then rstrip_slash head else head,
          tail))"

text \<open>\<open>os.path.join(a, b)\<close>: an absolute \<open>b\<close> replaces \<open>a\<close>.\<close>

definition os_path_join :: "string \<Rightarrow> string \<Rightarrow> string" where
  "os_path_join a b =
     (if b \<noteq> [] \<and> hd b = slash then b
      else if a = [] \<or> last a = slash then a @ b
      else a @ [slash] @ b)"

text \<open>
  \<open>s.split(c)\<close> for a one-character separator: the pieces between the separators,
  never an empty list.
\<close>

fun split_char :: "char \<Rightarrow> string \<Rightarrow> string list" where
  "split_char c [] = [[]]"
| "split_char c (x # xs) =
     (if x = c then [] # split_char c xs
      else (case split_char c xs of
              [] \<Rightarrow> [[x]]
            | p # ps \<Rightarrow> (x # p) # ps))"

text \<open>\<open>sub in s\<close>, and \<open>s.split(sub)[0]\<close>, the text before the first occurrence.\<close>

fun contains :: "string \<Rightarrow> string \<Rightarrow> bool" where
  "contains sub [] = (sub = [])"
| "contains sub (x # xs) = (prefix sub (x # xs) \<or> contains sub xs)"

fun before_first :: "string \<Rightarrow> string \<Rightarrow> string" where
  "before_first sub [] = []"
| "before_first sub (x # xs) =
     (if prefix sub (x # xs) then [] else x # before_first sub xs)"

datatype error =
  IndexError | UnboundLocalError | AssertionError | NotADirectoryError | FileNotFoundError |
  FileExistsError | IsADirectoryError | OSError | ShutilError

section \<open>The classifier: \<open>filter_files_with_regex\<close>\<close>

text \<open>
  The pattern is \<open>(?P<filename>.*)\.(?P<extension>JPG|jpg|jpeg|PNG|png|tiff|tif|TIF|BMP|bmp)\<close>.
  The alternatives are tried in the order they are written.
\<close>

definition image_extensions :: "string list" where
  "image_extensions =
     [''JPG'', ''jpg'', ''jpeg'', ''PNG'', ''png'', ''tiff'', ''tif'', ''TIF'', ''BMP'', ''bmp'']"

fun match_alternation :: "string list \<Rightarrow> string \<Rightarrow> (string \<times> string) option" where
  "match_alternation [] s = None"
| "match_alternation (a # as) s =
     (if prefix a s then Some (a, drop (length a) s) else match_alternation as s)"

text \<open>
  One attempt of the backtracking matcher at the start of \<open>s\<close>. The greedy \<open>.*\<close>
  first takes the next character (any but a line break) and tries the rest; only when
  that fails does it stop here, where \<open>\.\<close> and one alternative must follow. The result
  is the two groups and the text left after the match.
\<close>

fun match_at :: "string \<Rightarrow> (string \<times> string \<times> string) option" where
  "match_at [] = None"
| "match_at (c # cs) =
     (if c = newline then None
      else (case match_at cs of
              Some (fn, e, rest) \<Rightarrow> Some (c # fn, e, rest)
            | None \<Rightarrow>
                (if c = dot
                 then (case match_alternation image_extensions cs of
                         Some (e, rest) \<Rightarrow> Some ([], e, rest)
                       | None \<Rightarrow> None)
                 else None)))"

text \<open>The search: the leftmost position at which an attempt succeeds.\<close>

fun regex_search :: "string \<Rightarrow> (string \<times> string \<times> string) option" where
  "regex_search [] = match_at []"
| "regex_search (c # cs) =
     (case match_at (c # cs) of
        Some m \<Rightarrow> Some m
      | None \<Rightarrow> regex_search cs)"

lemma match_alternation_shorter:
  "match_alternation as s = Some (e, rest) \<Longrightarrow> length rest \<le> length s"
  by (induction as) (auto split: if_splits)

lemma match_at_shorter:
  "match_at s = Some (fn, e, rest) \<Longrightarrow> length rest < length s"
proof (induction s arbitrary: fn)
  case Nil
  then show ?case by simp
next
  case (Cons c cs)
  then show ?case
    by (fastforce split: if_splits option.splits dest: match_alternation_shorter)
qed

lemma regex_search_shorter:
  "regex_search s = Some (fn, e, rest) \<Longrightarrow> length rest < length s"
proof (induction s)
  case Nil
  then show ?case by simp
next
  case (Cons c cs)
  show ?case
  proof (cases "match_at (c # cs)")
    case None
    with Cons have "length rest < length cs" by simp
    then show ?thesis by simp
  next
    case (Some m)
    with Cons.prems have "match_at (c # cs) = Some (fn, e, rest)" by simp
    then show ?thesis by (rule match_at_shorter)
  qed
qed

text \<open>\<open>re.finditer\<close>: the successive matches, each search starting where the last match ended.\<close>

function finditer :: "string \<Rightarrow> (string \<times> string) list" where
  "finditer s =
     (case regex_search s of
        None \<Rightarrow> []
      | Some (fn, e, rest) \<Rightarrow> (fn, e) # finditer rest)"
  by pat_completeness auto
termination
  by (relation "measure length") (auto dest: regex_search_shorter)

declare finditer.simps [simp del]

text \<open>
  The body of the loop: the groups of the last match are kept (\<open>None, None\<close> when there
  is no match), and \<open>not filename or not extension\<close> sends the file to the others.
\<close>

definition last_groups :: "string \<Rightarrow> string option \<times> string option" where
  "last_groups name =
     (case finditer name of
        [] \<Rightarrow> (None, None)
      | m # ms \<Rightarrow> (Some (fst (last (m # ms))), Some (snd (last (m # ms)))))"

definition py_not :: "string option \<Rightarrow> bool" where
  "py_not v = (case v of None \<Rightarrow> True | Some s \<Rightarrow> s = [])"

definition is_other :: "string \<Rightarrow> bool" where
  "is_other file =
     (let (path, name) = os_path_split file;
          (filename, extension) = last_groups name
      in py_not filename \<or> py_not extension)"

fun filter_loop :: "string list \<Rightarrow> string list \<Rightarrow> string list \<Rightarrow> string list \<times> string list" where
  "filter_loop [] imgs others = (imgs, others)"
| "filter_loop (file # files) imgs others =
     (if is_other file then filter_loop files imgs (others @ [file])
      else filter_loop files (imgs @ [file]) others)"

definition filter_files_with_regex :: "string list \<Rightarrow> error + (string list \<times> string list)" where
  "filter_files_with_regex files_list =
     (let (imgs, others) = filter_loop files_list [] []
      in if length files_list = length imgs + length others then Inr (imgs, others)
         else Inl AssertionError)"

text \<open>
  The classifier as the specification words it: the extension is the text after the final
  \<open>.\<close> of the file name, compared without regard to case with the six image extensions.
\<close>

definition spec_extension :: "string \<Rightarrow> string option" where
  "spec_extension name =
     (if dot \<in> set name then Some (rev (takeWhile (\<lambda>c. c \<noteq> dot) (rev name))) else None)"

definition spec_is_image :: "string \<Rightarrow> bool" where
  "spec_is_image file =
     (case spec_extension (snd (os_path_split file)) of
        None \<Rightarrow> False
      | Some e \<Rightarrow> lower e \<in> set [''jpg'', ''jpeg'', ''png'', ''tiff'', ''tif'', ''bmp''])"

text \<open>
  The stem of a file name, the text before its final \<open>.\<close>, and the wording with the
  stem taken into account: a path is an image when its extension is in the set and its
  stem is not empty.
\<close>

definition spec_stem :: "string \<Rightarrow> string" where
  "spec_stem name = butlast (rev (dropWhile (\<lambda>c. c \<noteq> dot) (rev name)))"

definition spec_is_image_with_stem :: "string \<Rightarrow> bool" where
  "spec_is_image_with_stem file =
     (spec_is_image file \<and> spec_stem (snd (os_path_split file)) \<noteq> [])"


section \<open>The file system\<close>

text \<open>
  The file system is a collaborator of the program: a table from path names to what
  \<open>os.stat\<close> reports there, the kind of the entry and its size. The table lists every
  entry of the tree under its normalised path name, and a path is looked up as the string
  it is: the functions below are those of \<open>os\<close>, \<open>os.path\<close> and \<open>shutil\<close> on
  normalised paths, whose components are proper names (not empty, not \<open>.\<close>, not \<open>..\<close>).
  The properties that depend on the file system are stated for such paths. Links,
  permissions and devices are not part of the table: every directory can be written to.
  \<open>lagging\<close> lists the paths on which a deletion has not taken effect: \<open>os.remove\<close>
  returns and the path still exists, the situation the retry loop of the reconciler is
  written for.
\<close>

datatype kind = RegularFile | Directory

record filesystem =
  entries :: "(string \<times> kind \<times> nat) list"
  lagging :: "string list"



definition os_path_exists :: "filesystem \<Rightarrow> string \<Rightarrow> bool" where
  "os_path_exists fs p = (map_of (entries fs) p \<noteq> None)"

definition os_path_isfile :: "filesystem \<Rightarrow> string \<Rightarrow> bool" where
  "os_path_isfile fs p =
     (case map_of (entries fs) p of
        Some (RegularFile, n) \<Rightarrow> True
      | _ \<Rightarrow> False)"

definition os_path_isdir :: "filesystem \<Rightarrow> string \<Rightarrow> bool" where
  "os_path_isdir fs p =
     (case map_of (entries fs) p of
        Some (Directory, n) \<Rightarrow> True
      | _ \<Rightarrow> False)"

definition os_path_getsize :: "filesystem \<Rightarrow> string \<Rightarrow> error + nat" where
  "os_path_getsize fs p =
     (case map_of (entries fs) p of
        Some (k, n) \<Rightarrow> Inr n
      | None \<Rightarrow> Inl FileNotFoundError)"

text \<open>\<open>os.remove\<close> of a path that exists.\<close>

definition os_remove :: "filesystem \<Rightarrow> string \<Rightarrow> filesystem" where
  "os_remove fs p =
     (if p \<in> set (lagging fs) then fs
      else fs\<lparr>entries := filter (\<lambda>e. fst e \<noteq> p) (entries fs)\<rparr>)"

text \<open>
  \<open>os.makedirs(p)\<close> creates the directory \<open>p\<close> and every missing directory on the way
  to it. The directories on the way are the prefixes of \<open>p\<close> that end before a
  separator. It raises on the empty path, when \<open>p\<close> exists, or when a regular file is
  in the way.
\<close>

definition path_prefixes :: "string \<Rightarrow> string list" where
  "path_prefixes p =
     map (\<lambda>i. take i p) (filter (\<lambda>i. p ! i = slash \<and> p ! (i - 1) \<noteq> slash) [1..<length p]) @ [p]"

definition os_makedirs :: "filesystem \<Rightarrow> string \<Rightarrow> error + filesystem" where
  "os_makedirs fs p =
     (if p = [] then Inl FileNotFoundError
      else if os_path_exists fs p then Inl FileExistsError
      else if \<exists>q \<in> set (path_prefixes p). os_path_isfile fs q then Inl NotADirectoryError
      else Inr (fs\<lparr>entries := entries fs @
                  map (\<lambda>q. (q, Directory, 0))
                    (filter (\<lambda>q. \<not> os_path_exists fs q) (path_prefixes p))\<rparr>))"

text \<open>
  \<open>os.rename(src, dst)\<close> raises when the source is missing, and when the directory that
  is to hold \<open>dst\<close> is not there or has a regular file on the way to it (the root and the
  working directory, an empty head, are always there). A regular file takes the place of
  a regular file at \<open>dst\<close> and cannot take the place of a directory. A directory moves
  with everything below it, to a path that is free or an empty directory, and not into
  itself.
\<close>

definition parent_error :: "filesystem \<Rightarrow> string \<Rightarrow> error option" where
  "parent_error fs p =
     (let parent = fst (os_path_split p)
      in if \<exists>q \<in> set (path_prefixes parent). os_path_isfile fs q then Some NotADirectoryError
         else if parent \<noteq> [] \<and> (\<exists>c \<in> set parent. c \<noteq> slash) \<and> \<not> os_path_isdir fs parent
         then Some FileNotFoundError
         else None)"

definition rename_entry :: "string \<Rightarrow> string \<Rightarrow> string \<times> kind \<times> nat \<Rightarrow> string \<times> kind \<times> nat" where
  "rename_entry src dst e =
     (if fst e = src then (dst, snd e)
      else if prefix (src @ [slash]) (fst e) then (dst @ drop (length src) (fst e), snd e)
      else e)"

definition os_rename :: "filesystem \<Rightarrow> string \<Rightarrow> string \<Rightarrow> error + filesystem" where
  "os_rename fs src dst =
     (case map_of (entries fs) src of
        None \<Rightarrow> Inl FileNotFoundError
      | Some (k, n) \<Rightarrow>
          (case parent_error fs dst of
             Some e \<Rightarrow> Inl e
           | None \<Rightarrow>
               if src = dst then Inr fs
               else (case k of
                       RegularFile \<Rightarrow>
                         if os_path_isdir fs dst then Inl IsADirectoryError
                         else Inr (fs\<lparr>entries :=
                                     filter (\<lambda>e. fst e \<noteq> src \<and> fst e \<noteq> dst) (entries fs) @
                                       [(dst, RegularFile, n)]\<rparr>)
                     | Directory \<Rightarrow>
                         if os_path_isfile fs dst then Inl NotADirectoryError
                         else if prefix (src @ [slash]) dst \<or>
                                 (\<exists>e \<in> set (entries fs). prefix (dst @ [slash]) (fst e))
                         then Inl OSError
                         else Inr (fs\<lparr>entries :=
                                     map (rename_entry src dst)
                                       (filter (\<lambda>e. fst e \<noteq> dst) (entries fs))\<rparr>))))"

text \<open>
  \<open>shutil.move(src, dst)\<close>. When \<open>dst\<close> is a directory the source goes into it under
  its own base name, which must be free there (unless source and destination are the
  same directory). Then \<open>os.rename\<close> does the move; when it raises, the copy that
  \<open>shutil.move\<close> falls back on raises as well.
\<close>

definition shutil_move :: "filesystem \<Rightarrow> string \<Rightarrow> string \<Rightarrow> error + filesystem" where
  "shutil_move fs src dst =
     (if os_path_isdir fs dst \<and> src \<noteq> dst
      then (let real_dst = os_path_join dst (snd (os_path_split (rstrip_slash src)))
            in if os_path_exists fs real_dst then Inl ShutilError
               else os_rename fs src real_dst)
      else os_rename fs src dst)"

section \<open>The destination resolver: \<open>create_dst_path_for_file\<close>\<close>

text \<open>The decimal digits of a number, as the f-string \<open>{index}\<close> writes them.\<close>

definition digit_char :: "nat \<Rightarrow> char" where
  "digit_char n = ''0123456789'' ! n"

function str_nat :: "nat \<Rightarrow> string" where
  "str_nat n = (if n < 10 then [digit_char n] else str_nat (n div 10) @ [digit_char (n mod 10)])"
  by pat_completeness auto
termination
  by (relation "measure id") auto

declare str_nat.simps [simp del]

definition plain_path :: "string \<Rightarrow> string \<Rightarrow> string \<Rightarrow> string" where
  "plain_path base_path filename extension =
     os_path_join base_path (filename @ ''.'' @ lower extension)"

definition kopie_path :: "string \<Rightarrow> string \<Rightarrow> string \<Rightarrow> nat \<Rightarrow> string" where
  "kopie_path base_path filename extension index =
     os_path_join base_path (filename @ ''_Kopie('' @ str_nat index @ '').'' @ lower extension)"

text \<open>
  Distinct indexes give distinct candidate paths, so only finitely many candidates can
  exist in a file system: the probing loop ends.
\<close>

lemma digit_char_inj: "a < 10 \<Longrightarrow> b < 10 \<Longrightarrow> digit_char a = digit_char b \<Longrightarrow> a = b"
proof -
  assume "a < 10" "b < 10" "digit_char a = digit_char b"
  moreover have "distinct ''0123456789''" by simp
  ultimately show ?thesis
    unfolding digit_char_def by (simp add: nth_eq_iff_index_eq)
qed

lemma str_nat_nonempty: "str_nat n \<noteq> []"
  by (subst str_nat.simps) simp

lemma str_nat_inj: "str_nat a = str_nat b \<Longrightarrow> a = b"
proof (induction a arbitrary: b rule: str_nat.induct)
  case (1 a)
  show ?case
  proof (cases "a < 10")
    case True
    then have a: "str_nat a = [digit_char a]" by (subst str_nat.simps) simp
    show ?thesis
    proof (cases "b < 10")
      case b: True
      then have "str_nat b = [digit_char b]" by (subst str_nat.simps) simp
      with a "1.prems" True b show ?thesis by (simp add: digit_char_inj)
    next
      case b: False
      then have "str_nat b = str_nat (b div 10) @ [digit_char (b mod 10)]"
        by (subst str_nat.simps) simp
      with a "1.prems" str_nat_nonempty[of "b div 10"] show ?thesis by simp
    qed
  next
    case False
    then have a: "str_nat a = str_nat (a div 10) @ [digit_char (a mod 10)]"
      by (subst str_nat.simps) simp
    show ?thesis
    proof (cases "b < 10")
      case b: True
      then have "str_nat b = [digit_char b]" by (subst str_nat.simps) simp
      with a "1.prems" str_nat_nonempty[of "a div 10"] show ?thesis by simp
    next
      case b: False
      then have "str_nat b = str_nat (b div 10) @ [digit_char (b mod 10)]"
        by (subst str_nat.simps) simp
      with a "1.prems" have eq: "str_nat (a div 10) = str_nat (b div 10)"
        and d: "digit_char (a mod 10) = digit_char (b mod 10)" by simp_all
      from "1.IH"[OF False eq] have "a div 10 = b div 10" .
      moreover from d have "a mod 10 = b mod 10" by (simp add: digit_char_inj)
      ultimately show ?thesis by (metis div_mult_mod_eq)
    qed
  qed
qed

lemma kopie_path_shape:
  "\<exists>pre post. \<forall>i. kopie_path base filename extension i = pre @ str_nat i @ post"
proof -
  let ?h = "filename @ ''_Kopie(''"
  let ?c = "if hd ?h = slash then [] else if base = [] \<or> last base = slash then base
            else base @ [slash]"
  have "\<forall>i. kopie_path base filename extension i
          = (?c @ ?h) @ str_nat i @ ('').'' @ lower extension)"
  proof
    fix i
    have "hd (?h @ str_nat i @ '').'' @ lower extension) = hd ?h"
      by (rule hd_append2) simp
    then show "kopie_path base filename extension i
          = (?c @ ?h) @ str_nat i @ ('').'' @ lower extension)"
      by (simp add: kopie_path_def os_path_join_def)
  qed
  then show ?thesis by blast
qed

lemma kopie_path_inj:
  assumes "kopie_path base filename extension i = kopie_path base filename extension j"
  shows "i = j"
proof -
  from kopie_path_shape[of base filename extension] obtain pre post where
    sh: "\<And>i. kopie_path base filename extension i = pre @ str_nat i @ post" by blast
  from assms have "str_nat i = str_nat j" by (simp add: sh)
  then show ?thesis by (rule str_nat_inj)
qed

lemma finite_existing_candidates:
  "finite {j. os_path_exists fs (kopie_path base filename extension j)}"
proof -
  have "{j. os_path_exists fs (kopie_path base filename extension j)}
          \<subseteq> (\<lambda>j. kopie_path base filename extension j) -` (fst ` set (entries fs))"
    by (auto simp: os_path_exists_def map_of_eq_None_iff)
  moreover have "finite ((\<lambda>j. kopie_path base filename extension j) -` (fst ` set (entries fs)))"
    by (rule finite_vimageI) (auto intro: injI kopie_path_inj)
  ultimately show ?thesis by (rule finite_subset)
qed

lemma existing_candidates_decrease:
  assumes "os_path_exists fs (kopie_path base filename extension (Suc index))"
  shows "card {j. Suc index < j \<and> os_path_exists fs (kopie_path base filename extension j)}
       < card {j. index < j \<and> os_path_exists fs (kopie_path base filename extension j)}"
proof -
  let ?A = "{j. index < j \<and> os_path_exists fs (kopie_path base filename extension j)}"
  let ?B = "{j. Suc index < j \<and> os_path_exists fs (kopie_path base filename extension j)}"
  have fin: "finite ?A"
    by (rule finite_subset[OF _ finite_existing_candidates[of fs base filename extension]]) auto
  have "?B \<subset> ?A" using assms by auto
  with fin show "card ?B < card ?A" by (rule psubset_card_mono)
qed

text \<open>
  The loop \<open>while good_to_go == False\<close>: the index is incremented, the candidate built
  and tested.
\<close>

function kopie_loop :: "filesystem \<Rightarrow> string \<Rightarrow> string \<Rightarrow> string \<Rightarrow> nat \<Rightarrow> string" where
  "kopie_loop fs base_path filename extension index =
     (let index' = index + 1;
          dst_path = kopie_path base_path filename extension index'
      in if \<not> os_path_exists fs dst_path then dst_path
         else kopie_loop fs base_path filename extension index')"
  by pat_completeness auto
termination
  apply (relation "measure (\<lambda>(fs, base, filename, extension, index).
          card {j. index < j \<and> os_path_exists fs (kopie_path base filename extension j)})")
   apply simp
  apply (simp add: existing_candidates_decrease)
  done

declare kopie_loop.simps [simp del]

definition create_dst_path_for_file ::
  "filesystem \<Rightarrow> string \<Rightarrow> string \<Rightarrow> string \<Rightarrow> error + (filesystem \<times> string)" where
  "create_dst_path_for_file fs base_path filename extension =
     (case (if \<not> os_path_exists fs base_path then os_makedirs fs base_path else Inr fs) of
        Inl e \<Rightarrow> Inl e
      | Inr fs1 \<Rightarrow>
          (let dst_path = plain_path base_path filename extension
           in if os_path_exists fs1 dst_path
              then Inr (fs1, kopie_loop fs1 base_path filename extension 0)
              else Inr (fs1, dst_path)))"

section \<open>The duplicate reconciler: \<open>delete_copy_pictures_from_destination\<close>\<close>

text \<open>
  \<open>get_all_files_from_source\<close> walks the tree under \<open>src_path\<close>, joins every name with
  its directory and keeps the paths that are files. In the table these are the entries
  whose path continues \<open>src_path\<close> after a separator; they are listed in the order of the
  table (no property below depends on the order of the walk). Walking the empty path
  hands out nothing.
\<close>

definition get_all_files_from_source :: "filesystem \<Rightarrow> string \<Rightarrow> string list" where
  "get_all_files_from_source fs src_path =
     (let all_files_walk =
            (if src_path = [] then []
             else filter (\<lambda>p. strict_prefix (os_path_join src_path []) p) (map fst (entries fs)))
      in filter (os_path_isfile fs) all_files_walk)"

text \<open>The list \<open>quene\<close>: the files with \<open>Kopie\<close> in their path.\<close>

definition copy_candidates :: "filesystem \<Rightarrow> string \<Rightarrow> string list" where
  "copy_candidates fs path =
     filter (\<lambda>file. contains ''Kopie'' file \<and> os_path_isfile fs file)
       (get_all_files_from_source fs path)"

text \<open>\<open>file.split("Kopie")[0][:-1] + "." + file.split(".")[-1]\<close>\<close>

definition org_file_of :: "string \<Rightarrow> string" where
  "org_file_of file =
     butlast (before_first ''Kopie'' file) @ ''.'' @ last (split_char dot file)"

text \<open>
  The first loop compares the sizes. \<open>os.path.getsize\<close> raises when the path is not
  there, and nothing catches it.
\<close>

fun compare_loop ::
  "filesystem \<Rightarrow> string list \<Rightarrow> string list \<Rightarrow> (string \<times> string) list \<Rightarrow>
     error + (string list \<times> (string \<times> string) list)" where
  "compare_loop fs [] deleted_files problem_files = Inr (deleted_files, problem_files)"
| "compare_loop fs (file # quene) deleted_files problem_files =
     (if os_path_isfile fs file
      then (case os_path_getsize fs (org_file_of file) of
              Inl e \<Rightarrow> Inl e
            | Inr size_org_file \<Rightarrow>
                (case os_path_getsize fs file of
                   Inl e \<Rightarrow> Inl e
                 | Inr size_file \<Rightarrow>
                     (if size_file = size_org_file
                      then compare_loop fs quene (deleted_files @ [file]) problem_files
                      else compare_loop fs quene deleted_files
                             (problem_files @ [(file, ''Size does not match'')]))))
      else compare_loop fs quene deleted_files (problem_files @ [(file, ''No file'')]))"

text \<open>
  \<open>for file in del_files\<close>, with the list changed under the iteration: the iterator
  keeps an index, and \<open>del_files.remove(file)\<close> takes out the first equal element, so
  the element after a removed one is skipped in this pass.
\<close>

function del_pass :: "filesystem \<Rightarrow> string list \<Rightarrow> nat \<Rightarrow> filesystem \<times> string list" where
  "del_pass fs del_files i =
     (if i < length del_files
      then (let file = del_files ! i
            in if os_path_exists fs file then del_pass (os_remove fs file) del_files (i + 1)
               else del_pass fs (remove1 file del_files) (i + 1))
      else (fs, del_files))"
  by pat_completeness auto
termination
  by (relation "measure (\<lambda>(fs, del_files, i). length del_files - i)")
     (auto simp: length_remove1)

declare del_pass.simps [simp del]

text \<open>
  \<open>while len(del_files) > 0 or counter < 10\<close>. The loop may run forever, so its result
  is optional: \<open>None\<close> stands for a run that does not return.
\<close>

partial_function (option) del_loop ::
  "filesystem \<Rightarrow> string list \<Rightarrow> nat \<Rightarrow> (filesystem \<times> string list \<times> nat) option" where
  "del_loop fs del_files counter =
     (if length del_files > 0 \<or> counter < 10
      then (case del_pass fs del_files 0 of
              (fs', del_files') \<Rightarrow> del_loop fs' del_files' (counter + 1))
      else Some (fs, del_files, counter))"

declare del_loop.simps [code]

definition delete_copy_pictures_from_destination ::
  "filesystem \<Rightarrow> string \<Rightarrow>
     (error + (filesystem \<times> string list \<times> (string \<times> string) list)) option" where
  "delete_copy_pictures_from_destination fs path =
     (let quene = copy_candidates fs path
      in case compare_loop fs quene [] [] of
           Inl e \<Rightarrow> Some (Inl e)
         | Inr (deleted_files, problem_files) \<Rightarrow>
             (case del_loop fs deleted_files 0 of
                None \<Rightarrow> None
              | Some (fs', del_files, counter) \<Rightarrow>
                  (let problem_files' =
                         (if length del_files > 0
                          then problem_files @ map (\<lambda>file. (file, ''Could not be deleted'')) del_files
                          else problem_files)
                   in if length quene = length deleted_files + length problem_files'
                      then Some (Inr (fs', deleted_files, problem_files'))
                      else Some (Inl AssertionError))))"

text \<open>
  What is left to do for the deletion loop: the entries of the list, counted once more
  when they still exist.
\<close>

definition pending :: "filesystem \<Rightarrow> string list \<Rightarrow> nat" where
  "pending fs l = length l + length (filter (os_path_exists fs) l)"

section \<open>The pipeline: \<open>move_other_files\<close> and \<open>extract_exif_from_image_and_move_to_dest_folder\<close>\<close>

text \<open>
  The configuration is the loaded JSON object; the flag is kept as \<open>str(...)\<close> renders
  it, and the program compares its lower-cased text with \<open>true\<close>.
\<close>

record config =
  destination_path :: string
  include_year_in_destination_folder_level :: string

text \<open>\<open>xs[i]\<close> raises \<open>IndexError\<close> out of range.\<close>

definition py_index :: "'a list \<Rightarrow> nat \<Rightarrow> error + 'a" where
  "py_index xs i = (if i < length xs then Inr (xs ! i) else Inl IndexError)"

subsection \<open>Files that are not images\<close>

text \<open>
  The stem, the extension and the base directory \<open>move_other_files\<close> computes for a file:
  \<open>filename_full.split('.')[0]\<close>, \<open>filename_full.split('.')[1]\<close> and
  \<open>destination/Other Files/{extension}_Files\<close>.
\<close>

definition other_target :: "config \<Rightarrow> string \<Rightarrow> error + (string \<times> string \<times> string)" where
  "other_target cfg file =
     (let (path, filename_full) = os_path_split file
      in case py_index (split_char dot filename_full) 0 of
           Inl e \<Rightarrow> Inl e
         | Inr filename \<Rightarrow>
             (case py_index (split_char dot filename_full) 1 of
                Inl e \<Rightarrow> Inl e
              | Inr extension \<Rightarrow>
                  Inr (os_path_join (os_path_join (destination_path cfg) ''Other Files'')
                         (extension @ ''_Files''),
                       filename, extension)))"

fun move_other_loop ::
  "config \<Rightarrow> filesystem \<Rightarrow> string list \<Rightarrow> string list \<Rightarrow> string list \<Rightarrow>
     error + (filesystem \<times> string list \<times> string list)" where
  "move_other_loop cfg fs [] success_files problem_files = Inr (fs, success_files, problem_files)"
| "move_other_loop cfg fs (file # files) success_files problem_files =
     (case other_target cfg file of
        Inl e \<Rightarrow> Inl e
      | Inr (base_path, filename, extension) \<Rightarrow>
          (case (if \<not> os_path_exists fs base_path then os_makedirs fs base_path else Inr fs) of
             Inl e \<Rightarrow> Inl e
           | Inr fs1 \<Rightarrow>
               (case create_dst_path_for_file fs1 base_path filename extension of
                  Inl e \<Rightarrow> Inl e
                | Inr (fs2, dst_path) \<Rightarrow>
                    (case shutil_move fs2 file dst_path of
                       Inr fs3 \<Rightarrow> move_other_loop cfg fs3 files (success_files @ [file]) problem_files
                     | Inl e \<Rightarrow> move_other_loop cfg fs2 files success_files (problem_files @ [file])))))"

definition move_other_files ::
  "config \<Rightarrow> filesystem \<Rightarrow> string list \<Rightarrow> error + (filesystem \<times> string list \<times> string list)" where
  "move_other_files cfg fs files = move_other_loop cfg fs files [] []"

text \<open>
  The extension of a file that is not an image as the specification words it: the text
  after the first \<open>.\<close> of the file name.
\<close>

definition spec_other_extension :: "string \<Rightarrow> string" where
  "spec_other_extension name = tl (dropWhile (\<lambda>c. c \<noteq> dot) name)"

subsection \<open>The capture time\<close>

text \<open>
  \<open>datetime.strptime(s, "%Y:%m:%d %H:%M:%S")\<close>. Each directive is a group of
  alternatives tried in order: \<open>%Y\<close> is \<open>\d\d\d\d\<close>, \<open>%m\<close> is \<open>1[0-2]|0[1-9]|[1-9]\<close>,
  \<open>%d\<close> is \<open>3[01]|[12]\d|0[1-9]|[1-9]| [1-9]\<close>, \<open>%H\<close> is \<open>2[0-3]|[0-1]\d|\d\<close>, \<open>%M\<close> is
  \<open>[0-5]\d|\d\<close>, \<open>%S\<close> is \<open>6[0-1]|[0-5]\d|\d\<close>, and the blank of the format is \<open>\s+\<close>. After
  every group comes a character that is no digit (or the end), so the first alternative
  that matches is the only one that can be followed by the rest, and the parser below
  takes it. Text left over, a day the month does not have, second 60 or 61 and year 0 make
  the call raise \<open>ValueError\<close>: the result is \<open>None\<close>.
\<close>

record datetime =
  year :: nat
  month :: nat
  day :: nat
  hour :: nat
  minute :: nat
  second :: nat

definition digit_val :: "char \<Rightarrow> nat option" where
  "digit_val c = map_of (zip ''0123456789'' [0..<10]) c"

definition two_digits :: "(nat \<Rightarrow> bool) \<Rightarrow> (nat \<Rightarrow> bool) \<Rightarrow> string \<Rightarrow> (nat \<times> string) option" where
  "two_digits P Q s =
     (case s of
        a # b # r \<Rightarrow>
          (case (digit_val a, digit_val b) of
             (Some x, Some y) \<Rightarrow> if P x \<and> Q y then Some (10 * x + y, r) else None
           | _ \<Rightarrow> None)
      | _ \<Rightarrow> None)"

definition one_digit :: "(nat \<Rightarrow> bool) \<Rightarrow> string \<Rightarrow> (nat \<times> string) option" where
  "one_digit P s =
     (case s of
        a # r \<Rightarrow> (case digit_val a of Some x \<Rightarrow> if P x then Some (x, r) else None | None \<Rightarrow> None)
      | [] \<Rightarrow> None)"

fun first_of :: "(string \<Rightarrow> (nat \<times> string) option) list \<Rightarrow> string \<Rightarrow> (nat \<times> string) option" where
  "first_of [] s = None"
| "first_of (p # ps) s = (case p s of Some r \<Rightarrow> Some r | None \<Rightarrow> first_of ps s)"

definition any_digit :: "nat \<Rightarrow> bool" where
  "any_digit x = True"

definition directive_Y :: "string \<Rightarrow> (nat \<times> string) option" where
  "directive_Y s =
     (case two_digits any_digit any_digit s of
        None \<Rightarrow> None
      | Some (hi, r) \<Rightarrow>
          (case two_digits any_digit any_digit r of
             None \<Rightarrow> None
           | Some (lo, r') \<Rightarrow> Some (100 * hi + lo, r')))"

definition directive_m :: "string \<Rightarrow> (nat \<times> string) option" where
  "directive_m =
     first_of [two_digits (\<lambda>x. x = 1) (\<lambda>y. y \<le> 2), two_digits (\<lambda>x. x = 0) (\<lambda>y. 1 \<le> y),
               one_digit (\<lambda>x. 1 \<le> x)]"

definition directive_d :: "string \<Rightarrow> (nat \<times> string) option" where
  "directive_d =
     first_of [two_digits (\<lambda>x. x = 3) (\<lambda>y. y \<le> 1), two_digits (\<lambda>x. 1 \<le> x \<and> x \<le> 2) any_digit,
               two_digits (\<lambda>x. x = 0) (\<lambda>y. 1 \<le> y), one_digit (\<lambda>x. 1 \<le> x),
               (\<lambda>s. case s of c # r \<Rightarrow> if c = CHR '' '' then one_digit (\<lambda>x. 1 \<le> x) r else None
                             | [] \<Rightarrow> None)]"

definition directive_H :: "string \<Rightarrow> (nat \<times> string) option" where
  "directive_H =
     first_of [two_digits (\<lambda>x. x = 2) (\<lambda>y. y \<le> 3), two_digits (\<lambda>x. x \<le> 1) any_digit,
               one_digit any_digit]"

definition directive_M :: "string \<Rightarrow> (nat \<times> string) option" where
  "directive_M = first_of [two_digits (\<lambda>x. x \<le> 5) any_digit, one_digit any_digit]"

definition directive_S :: "string \<Rightarrow> (nat \<times> string) option" where
  "directive_S =
     first_of [two_digits (\<lambda>x. x = 6) (\<lambda>y. y \<le> 1), two_digits (\<lambda>x. x \<le> 5) any_digit,
               one_digit any_digit]"

definition literal :: "char \<Rightarrow> string \<Rightarrow> string option" where
  "literal c s = (case s of x # r \<Rightarrow> if x = c then Some r else None | [] \<Rightarrow> None)"

text \<open>
  The characters \<open>\s\<close> matches in a pattern that is a \<open>str\<close>: the blank, the controls
  9 to 13 and 28 to 31, the next-line control 133 and the no-break space 160.
\<close>

definition is_space :: "char \<Rightarrow> bool" where
  "is_space c =
     (c \<in> set [CHR '' '', CHR 0x09, CHR 0x0A, CHR 0x0B, CHR 0x0C, CHR 0x0D,
               CHR 0x1C, CHR 0x1D, CHR 0x1E, CHR 0x1F, CHR 0x85, CHR 0xA0])"

definition spaces :: "string \<Rightarrow> string option" where
  "spaces s =
     (case s of
        x # r \<Rightarrow> if is_space x then Some (dropWhile is_space r) else None
      | [] \<Rightarrow> None)"

definition is_leap :: "nat \<Rightarrow> bool" where
  "is_leap y = (y mod 4 = 0 \<and> (y mod 100 \<noteq> 0 \<or> y mod 400 = 0))"

definition days_in_month :: "nat \<Rightarrow> nat \<Rightarrow> nat" where
  "days_in_month y m =
     (if m = 2 then (if is_leap y then 29 else 28)
      else if m \<in> set [4, 6, 9, 11] then 30 else 31)"

definition valid_datetime :: "datetime \<Rightarrow> bool" where
  "valid_datetime t =
     (1 \<le> year t \<and> year t \<le> 9999 \<and> 1 \<le> month t \<and> month t \<le> 12 \<and>
      1 \<le> day t \<and> day t \<le> days_in_month (year t) (month t) \<and>
      hour t \<le> 23 \<and> minute t \<le> 59 \<and> second t \<le> 59)"

definition strptime :: "string \<Rightarrow> datetime option" where
  "strptime s =
     do {
       (Y, r) \<leftarrow> directive_Y s;
       r \<leftarrow> literal CHR '':'' r;
       (m, r) \<leftarrow> directive_m r;
       r \<leftarrow> literal CHR '':'' r;
       (d, r) \<leftarrow> directive_d r;
       r \<leftarrow> spaces r;
       (H, r) \<leftarrow> directive_H r;
       r \<leftarrow> literal CHR '':'' r;
       (M, r) \<leftarrow> directive_M r;
       r \<leftarrow> literal CHR '':'' r;
       (S, r) \<leftarrow> directive_S r;
       let t = \<lparr>year = Y, month = m, day = d, hour = H, minute = M, second = S\<rparr>
       in if r = [] \<and> valid_datetime t then Some t else None
     }"

text \<open>
  \<open>strftime\<close> writes \<open>%m\<close>, \<open>%d\<close>, \<open>%H\<close>, \<open>%M\<close> and \<open>%S\<close> with two digits and \<open>%Y\<close> with
  four (below the year 1000 the padding of \<open>%Y\<close> depends on the C library; the properties
  below are about later years).
\<close>

definition pad2 :: "nat \<Rightarrow> string" where
  "pad2 n = [digit_char (n div 10 mod 10), digit_char (n mod 10)]"

definition pad4 :: "nat \<Rightarrow> string" where
  "pad4 n = pad2 (n div 100) @ pad2 (n mod 100)"

definition year_str_of :: "datetime \<Rightarrow> string" where
  "year_str_of t = pad4 (year t)"

definition year_month_str_of :: "datetime \<Rightarrow> string" where
  "year_month_str_of t = pad4 (year t) @ ''_'' @ pad2 (month t)"

definition image_filename_of :: "datetime \<Rightarrow> string" where
  "image_filename_of t =
     ''IMG_'' @ (pad4 (year t) @ pad2 (month t) @ pad2 (day t)) @ ''_'' @
       (pad2 (hour t) @ pad2 (minute t) @ pad2 (second t))"

text \<open>The text of a \<open>DateTime\<close> tag in the form \<open>YYYY:MM:DD HH:MM:SS\<close>.\<close>

definition exif_datetime_text :: "datetime \<Rightarrow> string" where
  "exif_datetime_text t =
     pad4 (year t) @ '':'' @ pad2 (month t) @ '':'' @ pad2 (day t) @ '' '' @
       pad2 (hour t) @ '':'' @ pad2 (minute t) @ '':'' @ pad2 (second t)"

subsection \<open>Images\<close>

text \<open>
  The imaging library is a collaborator: \<open>Image.open(path)\<close> raises (\<open>None\<close>) or gives
  an image with the result of \<open>_getexif()\<close> (\<open>None\<close> when the file carries no EXIF
  block or the call raises, which the loop body treats alike; else the tags by number)
  and its \<open>format\<close>. A tag value is text, bytes (with
  what \<open>decode()\<close> makes of them, \<open>None\<close> when it raises) or a number. \<open>TAGS\<close> names
  the tag numbers; tag 306 is \<open>DateTime\<close>.
\<close>

datatype exif_value = Text string | Bytes "string option" | Number int

record image_file =
  exifdata :: "(nat \<times> exif_value) list option"
  image_format :: "string option"

datatype tag = Name string | Id nat

definition TAGS :: "(nat \<times> string) list" where
  "TAGS = [(271, ''Make''), (272, ''Model''), (274, ''Orientation''), (306, ''DateTime''),
           (36867, ''DateTimeOriginal''), (36868, ''DateTimeDigitized'')]"

definition TAGS_get :: "nat \<Rightarrow> tag" where
  "TAGS_get tag_id = (case map_of TAGS tag_id of Some n \<Rightarrow> Name n | None \<Rightarrow> Id tag_id)"

text \<open>
  The loop over \<open>exifdata\<close> fills \<open>exif_dict\<close>, decoding bytes; a later tag of the same
  name replaces an earlier one. \<open>None\<close> when a \<open>decode()\<close> raises.
\<close>

fun build_exif_dict :: "(nat \<times> exif_value) list \<Rightarrow> (tag \<rightharpoonup> exif_value) \<Rightarrow> (tag \<rightharpoonup> exif_value) option" where
  "build_exif_dict [] exif_dict = Some exif_dict"
| "build_exif_dict ((tag_id, data) # rest) exif_dict =
     (case data of
        Bytes None \<Rightarrow> None
      | Bytes (Some s) \<Rightarrow> build_exif_dict rest (exif_dict(TAGS_get tag_id \<mapsto> Text s))
      | _ \<Rightarrow> build_exif_dict rest (exif_dict(TAGS_get tag_id \<mapsto> data)))"

text \<open>
  The \<open>try\<close> block of the loop body: \<open>None\<close> when something in it raises, else the year,
  year and month, file name and extension.
\<close>

definition read_exif :: "image_file \<Rightarrow> (string \<times> string \<times> string \<times> string) option" where
  "read_exif img =
     (case exifdata img of
        None \<Rightarrow> None
      | Some tags \<Rightarrow>
          (case build_exif_dict tags Map.empty of
             None \<Rightarrow> None
           | Some exif_dict \<Rightarrow>
               (case exif_dict (Name ''DateTime'') of
                  Some (Text s) \<Rightarrow>
                    (case strptime s of
                       None \<Rightarrow> None
                     | Some image_time \<Rightarrow>
                         (case image_format img of
                            None \<Rightarrow> None
                          | Some f \<Rightarrow>
                              Some (year_str_of image_time, year_month_str_of image_time,
                                    image_filename_of image_time, lower f)))
                | _ \<Rightarrow> None)))"

text \<open>
  The state of the loop: the file system, whether the local variable \<open>image\<close> has been
  assigned yet, and the three lists.
\<close>

record loop_state =
  the_fs :: filesystem
  image_bound :: bool
  success_list :: "string list"
  copy_list :: "string list"
  problem_list :: "string list"

text \<open>
  The handler \<open>except: image.close(); ...\<close> reads \<open>image\<close>: when \<open>Image.open\<close> raised
  and no earlier image was opened, the name is unbound and the handler raises. It then
  takes the file name apart at the dots.
\<close>

definition except_branch :: "bool \<Rightarrow> string \<Rightarrow> error + (string \<times> string)" where
  "except_branch bound image_path =
     (if \<not> bound then Inl UnboundLocalError
      else (let (path, filename_full) = os_path_split image_path
            in case py_index (split_char dot filename_full) 0 of
                 Inl e \<Rightarrow> Inl e
               | Inr filename \<Rightarrow>
                   (case py_index (split_char dot filename_full) 1 of
                      Inl e \<Rightarrow> Inl e
                    | Inr extension \<Rightarrow> Inr (filename, extension))))"

definition include_year_of :: "config \<Rightarrow> bool" where
  "include_year_of cfg = (lower (include_year_in_destination_folder_level cfg) \<in> set [''true''])"

text \<open>The base directory, file name and extension of one image, and the new \<open>image\<close> state.\<close>

definition image_target ::
  "config \<Rightarrow> (string \<Rightarrow> image_file option) \<Rightarrow> bool \<Rightarrow> string \<Rightarrow>
     error + (bool \<times> string \<times> string \<times> string)" where
  "image_target cfg image_open bound image_path =
     (let output_folder = destination_path cfg;
          opened = image_open image_path;
          bound' = (bound \<or> opened \<noteq> None)
      in case (case opened of None \<Rightarrow> None | Some img \<Rightarrow> read_exif img) of
           Some (year_str, year_month_str, filename, extension) \<Rightarrow>
             Inr (bound',
                  if include_year_of cfg
                  then os_path_join (os_path_join output_folder year_str) year_month_str
                  else os_path_join output_folder year_month_str,
                  filename, extension)
         | None \<Rightarrow>
             (case except_branch bound' image_path of
                Inl e \<Rightarrow> Inl e
              | Inr (filename, extension) \<Rightarrow>
                  Inr (bound', os_path_join output_folder ''No_exif_data'', filename, extension)))"

fun image_loop ::
  "config \<Rightarrow> (string \<Rightarrow> image_file option) \<Rightarrow> loop_state \<Rightarrow> string list \<Rightarrow> error + loop_state" where
  "image_loop cfg image_open st [] = Inr st"
| "image_loop cfg image_open st (image_path # imgs) =
     (case image_target cfg image_open (image_bound st) image_path of
        Inl e \<Rightarrow> Inl e
      | Inr (bound', base_path, filename, extension) \<Rightarrow>
          (case create_dst_path_for_file (the_fs st) base_path filename extension of
             Inl e \<Rightarrow> Inl e
           | Inr (fs1, dst_path) \<Rightarrow>
               (case shutil_move fs1 image_path dst_path of
                  Inr fs2 \<Rightarrow>
                    image_loop cfg image_open
                      (st\<lparr>the_fs := fs2, image_bound := bound',
                          success_list := success_list st @ [dst_path],
                          copy_list := (if contains ''Kopie'' dst_path then copy_list st @ [dst_path]
                                        else copy_list st)\<rparr>) imgs
                | Inl e \<Rightarrow>
                    image_loop cfg image_open
                      (st\<lparr>the_fs := fs1, image_bound := bound',
                          problem_list := problem_list st @ [image_path]\<rparr>) imgs)))"

definition extract_exif_from_image_and_move_to_dest_folder ::
  "config \<Rightarrow> (string \<Rightarrow> image_file option) \<Rightarrow> filesystem \<Rightarrow> string list \<Rightarrow>
     error + (filesystem \<times> string list \<times> string list \<times> string list)" where
  "extract_exif_from_image_and_move_to_dest_folder cfg image_open fs imgs =
     (case image_loop cfg image_open
             \<lparr>the_fs = fs, image_bound = False, success_list = [], copy_list = [],
              problem_list = []\<rparr> imgs of
        Inl e \<Rightarrow> Inl e
      | Inr st \<Rightarrow>
          if length imgs = length (success_list st) + length (problem_list st)
          then Inr (the_fs st, success_list st, copy_list st, problem_list st)
          else Inl AssertionError)"

section \<open>The pruner of empty directories: \<open>delete_empty_folders\<close>\<close>

text \<open>
  The pruner only looks at the shape of the tree under its root: for every directory the
  names of its files and its subdirectories. \<open>os.walk(directory, topdown=False)\<close> lists a
  directory when it enters it, walks the subdirectories, and hands out the directory with
  that listing afterwards; the loop body removes the directory when both lists are empty
  and its path is not the root's. So one pass is the recursion below: \<open>dirnames\<close> is the
  listing from before the subdirectories were walked. The result is the list of the paths
  given to \<open>os.rmdir\<close>, in order, and what is left of the directory (\<open>None\<close> when it was
  removed).
\<close>

datatype dir_tree = Dir (filenames_of: "string list") (subdirs_of: "(string \<times> dir_tree) list")

fun walk_remove :: "string \<Rightarrow> string \<Rightarrow> dir_tree \<Rightarrow> string list \<times> dir_tree option"
  and walk_children ::
    "string \<Rightarrow> string \<Rightarrow> (string \<times> dir_tree) list \<Rightarrow> string list \<times> (string \<times> dir_tree) list" where
  "walk_remove directory dirpath (Dir filenames subs) =
     (let dirnames = map fst subs;
          (removed, subs') = walk_children directory dirpath subs
      in if dirnames = [] \<and> filenames = [] \<and> dirpath \<noteq> directory
         then (removed @ [dirpath], None)
         else (removed, Some (Dir filenames subs')))"
| "walk_children directory dirpath [] = ([], [])"
| "walk_children directory dirpath ((name, sub) # rest) =
     (let (removed1, sub') = walk_remove directory (os_path_join dirpath name) sub;
          (removed2, rest') = walk_children directory dirpath rest
      in (removed1 @ removed2,
          (case sub' of None \<Rightarrow> rest' | Some d \<Rightarrow> (name, d) # rest')))"

text \<open>
  \<open>for i in range(0, levels)\<close>: the pass is repeated. Walking a directory that is not
  there hands out nothing.
\<close>

definition prune_pass :: "string \<Rightarrow> dir_tree option \<Rightarrow> string list \<times> dir_tree option" where
  "prune_pass directory root =
     (case root of None \<Rightarrow> ([], None) | Some t \<Rightarrow> walk_remove directory directory t)"

fun delete_empty_folders :: "string \<Rightarrow> nat \<Rightarrow> dir_tree option \<Rightarrow> string list \<times> dir_tree option" where
  "delete_empty_folders directory 0 root = ([], root)"
| "delete_empty_folders directory (Suc levels) root =
     (let (removed, root') = prune_pass directory root;
          (removed', root'') = delete_empty_folders directory levels root'
      in (removed @ removed', root''))"

text \<open>
  To speak about a tree: the directories in it with their paths, the trees that hold no
  file at all, the nesting depth, and the names a directory listing can hold (not empty,
  no separator).
\<close>

fun dirs_of :: "string \<Rightarrow> dir_tree \<Rightarrow> (string \<times> dir_tree) list"
  and dirs_of_children :: "string \<Rightarrow> (string \<times> dir_tree) list \<Rightarrow> (string \<times> dir_tree) list" where
  "dirs_of dirpath (Dir filenames subs) = (dirpath, Dir filenames subs) # dirs_of_children dirpath subs"
| "dirs_of_children dirpath [] = []"
| "dirs_of_children dirpath ((name, sub) # rest) =
     dirs_of (os_path_join dirpath name) sub @ dirs_of_children dirpath rest"

fun bare :: "dir_tree \<Rightarrow> bool" and bare_children :: "(string \<times> dir_tree) list \<Rightarrow> bool" where
  "bare (Dir filenames subs) = (filenames = [] \<and> bare_children subs)"
| "bare_children [] = True"
| "bare_children ((name, sub) # rest) = (bare sub \<and> bare_children rest)"

fun depth :: "dir_tree \<Rightarrow> nat" and depth_children :: "(string \<times> dir_tree) list \<Rightarrow> nat" where
  "depth (Dir filenames subs) = depth_children subs"
| "depth_children [] = 0"
| "depth_children ((name, sub) # rest) = max (Suc (depth sub)) (depth_children rest)"

fun proper_names :: "dir_tree \<Rightarrow> bool"
  and proper_names_children :: "(string \<times> dir_tree) list \<Rightarrow> bool" where
  "proper_names (Dir filenames subs) = proper_names_children subs"
| "proper_names_children [] = True"
| "proper_names_children ((name, sub) # rest) =
     (name \<noteq> [] \<and> slash \<notin> set name \<and> proper_names sub \<and> proper_names_children rest)"

section \<open>Properties of the string functions\<close>

lemma split_char_nonempty: "split_char c s \<noteq> []"
  by (induction s) (auto split: list.splits)

lemma split_char_append:
  "split_char c (pre @ c # x) = split_char c pre @ split_char c x"
proof (induction pre)
  case Nil
  then show ?case by simp
next
  case (Cons y pre)
  obtain p ps where sp: "split_char c pre = p # ps"
    using split_char_nonempty[of c pre] by (cases "split_char c pre") auto
  with Cons show ?case by simp
qed

lemma split_char_absent: "c \<notin> set s \<Longrightarrow> split_char c s = [s]"
  by (induction s) auto

lemma last_split_char:
  "c \<notin> set x \<Longrightarrow> last (split_char c (pre @ c # x)) = x"
  by (simp add: split_char_append split_char_absent)

lemma contains_iff: "contains sub s \<longleftrightarrow> (\<exists>a b. s = a @ sub @ b)"
proof (induction s)
  case Nil
  then show ?case by simp
next
  case (Cons x xs)
  show ?case
  proof
    assume "contains sub (x # xs)"
    then consider "prefix sub (x # xs)" | "contains sub xs" by auto
    then show "\<exists>a b. x # xs = a @ sub @ b"
    proof cases
      case 1
      then obtain b where "x # xs = sub @ b" by (auto simp: prefix_def)
      then have "x # xs = [] @ sub @ b" by simp
      then show ?thesis by blast
    next
      case 2
      with Cons obtain a b where "xs = a @ sub @ b" by blast
      then have "x # xs = (x # a) @ sub @ b" by simp
      then show ?thesis by blast
    qed
  next
    assume "\<exists>a b. x # xs = a @ sub @ b"
    then obtain a b where ab: "x # xs = a @ sub @ b" by blast
    show "contains sub (x # xs)"
    proof (cases a)
      case Nil
      with ab have "prefix sub (x # xs)" by (simp add: prefix_def)
      then show ?thesis by simp
    next
      case (Cons y a')
      with ab have "xs = a' @ sub @ b" by simp
      with Cons.IH have "contains sub xs" by blast
      then show ?thesis by simp
    qed
  qed
qed

lemma before_first_eq:
  "sub \<noteq> [] \<Longrightarrow> \<not> contains sub (a @ butlast sub) \<Longrightarrow> before_first sub (a @ sub @ b) = a"
proof (induction a)
  case Nil
  then show ?case by (cases sub) auto
next
  case (Cons x a)
  from Cons.prems(2) have np: "\<not> prefix sub (x # a @ butlast sub)"
    and nc: "\<not> contains sub (a @ butlast sub)" by auto
  have "\<not> prefix sub (x # a @ sub @ b)"
  proof
    assume p: "prefix sub (x # a @ sub @ b)"
    have q: "prefix (x # a @ butlast sub) (x # a @ sub @ b)"
      using Cons.prems(1) by (simp add: prefix_def) (metis append_butlast_last_id append.assoc)
    have "length sub \<le> length (x # a @ butlast sub)" using Cons.prems(1) by simp
    from prefix_length_prefix[OF p q this] np show False by simp
  qed
  with Cons.IH[OF Cons.prems(1) nc] show ?case by simp
qed

section \<open>Properties of the classifier\<close>

lemma filter_loop_eq:
  "filter_loop files imgs others =
     (imgs @ filter (\<lambda>f. \<not> is_other f) files, others @ filter is_other files)"
  by (induction files arbitrary: imgs others) auto

lemma length_filter_split:
  "length (filter (\<lambda>f. \<not> P f) xs) + length (filter P xs) = length xs"
  by (induction xs) auto

lemma filter_files_with_regex_eq:
  "filter_files_with_regex files =
     Inr (filter (\<lambda>f. \<not> is_other f) files, filter is_other files)"
  by (simp add: filter_files_with_regex_def filter_loop_eq length_filter_split)

lemma prefix_drop: "prefix a s \<Longrightarrow> s = a @ drop (length a) s"
  by (elim prefixE) simp

lemma match_alternation_Some:
  "match_alternation as s = Some (e, rest) \<Longrightarrow> e \<in> set as \<and> s = e @ rest"
proof (induction as)
  case Nil
  then show ?case by simp
next
  case (Cons a as)
  show ?case
  proof (cases "prefix a s")
    case True
    with Cons.prems have "a = e" and "drop (length a) s = rest" by auto
    moreover from True have "a @ drop (length a) s = s" by (rule prefix_drop [symmetric])
    ultimately show ?thesis by auto
  next
    case False
    with Cons show ?thesis by simp
  qed
qed



lemma match_at_no_dot: "dot \<notin> set s \<Longrightarrow> match_at s = None"
  by (induction s) auto

lemma regex_search_no_dot: "dot \<notin> set s \<Longrightarrow> regex_search s = None"
  by (induction s) (auto simp: match_at_no_dot)

lemma finditer_no_dot: "dot \<notin> set s \<Longrightarrow> finditer s = []"
  by (subst finditer.simps) (simp add: regex_search_no_dot)










lemma finditer_dotfile:
  assumes "dot \<notin> set e"
  shows "finditer (dot # e) = [] \<or> (\<exists>ext. finditer (dot # e) = [([], ext)])"
proof (cases "match_alternation image_extensions e")
  case None
  then have "regex_search (dot # e) = None"
    using assms by (simp add: match_at_no_dot regex_search_no_dot dot_def newline_def)
  then show ?thesis by (subst finditer.simps) simp
next
  case (Some m)
  obtain ext rest where m: "m = (ext, rest)" by (cases m) auto
  from match_alternation_Some[of image_extensions e ext rest] Some m have "e = ext @ rest" by simp
  with assms have "dot \<notin> set rest" by auto
  then have "finditer rest = []" by (rule finditer_no_dot)
  moreover from Some m assms have "regex_search (dot # e) = Some ([], ext, rest)"
    by (simp add: match_at_no_dot dot_def newline_def)
  ultimately have "finditer (dot # e) = [([], ext)]" by (subst finditer.simps) simp
  then show ?thesis by blast
qed

lemma is_other_dotfile:
  assumes "snd (os_path_split file) = dot # e" and "dot \<notin> set e"
  shows "is_other file"
  using finditer_dotfile[OF assms(2)] assms(1)
  by (auto simp: is_other_def last_groups_def py_not_def split: prod.splits)









text \<open>
  The two slips of the pattern, on which the classifier departs from the wording for
  another reason than the empty stem. The pattern lists \<open>jpeg\<close> and \<open>tiff\<close> in small
  letters only and no spelling in mixed case, and it has no flag to ignore case:
  \<open>photo.JPEG\<close> goes to the others. The pattern is not anchored at the end of the name:
  \<open>photo.jpg.txt\<close>, whose extension is \<open>txt\<close>, goes to the images.
\<close>

lemma classifier_misses_spelling:
  "spec_is_image_with_stem ''/a/photo.JPEG'' \<and>
   filter_files_with_regex [''/a/photo.JPEG''] = Inr ([], [''/a/photo.JPEG''])"
  by code_simp

lemma classifier_matches_inside_name:
  "\<not> spec_is_image_with_stem ''/a/photo.jpg.txt'' \<and>
   filter_files_with_regex [''/a/photo.jpg.txt''] = Inr ([''/a/photo.jpg.txt''], [])"
  by code_simp

text \<open>
  Claim C10. A file name that is a \<open>.\<close> followed by an extension without further
  \<open>.\<close> (an empty part before the extension dot) is never an image and, when it is in
  the input, is among the others, whatever the extension is.
\<close>

theorem classifier_empty_stem:
  "snd (os_path_split file) = dot # e \<Longrightarrow> dot \<notin> set e \<Longrightarrow>
     \<exists>imgs others. filter_files_with_regex files = Inr (imgs, others) \<and>
       file \<notin> set imgs \<and> (file \<in> set files \<longrightarrow> file \<in> set others)"
proof -
  assume "snd (os_path_split file) = dot # e" and "dot \<notin> set e"
  then have "is_other file" by (rule is_other_dotfile)
  then show ?thesis by (simp add: filter_files_with_regex_eq)
qed

theorem classifier_empty_stem_witness:
  "\<exists>imgs others. filter_files_with_regex [''/pics/.jpg'', ''/pics/b.png''] = Inr (imgs, others) \<and>
       ''/pics/.jpg'' \<notin> set imgs \<and> ''/pics/.jpg'' \<in> set others"
proof -
  have b: "snd (os_path_split ''/pics/.jpg'') = dot # ''jpg''"
    by (simp add: os_path_split_def slash_def dot_def)
  have d: "dot \<notin> set ''jpg''" by (simp add: dot_def)
  from classifier_empty_stem[OF b d, of "[''/pics/.jpg'', ''/pics/b.png'']"]
  show ?thesis by simp
qed

section \<open>Properties of the destination resolver\<close>
















section \<open>Properties of the duplicate reconciler\<close>

lemma compare_loop_length:
  "compare_loop fs quene d p = Inr (d', p') \<Longrightarrow>
     length d' + length p' = length quene + length d + length p"
proof (induction quene arbitrary: d p)
  case Nil
  then show ?case by simp
next
  case (Cons f quene)
  show ?case
  proof (cases "os_path_isfile fs f")
    case False
    with Cons.prems have "compare_loop fs quene d (p @ [(f, ''No file'')]) = Inr (d', p')"
      by simp
    from Cons.IH[OF this] show ?thesis by simp
  next
    case True
    with Cons.prems obtain so sf where
      so: "os_path_getsize fs (org_file_of f) = Inr so" and
      sf: "os_path_getsize fs f = Inr sf"
      by (auto split: sum.splits)
    show ?thesis
    proof (cases "sf = so")
      case eq: True
      with True so sf Cons.prems have "compare_loop fs quene (d @ [f]) p = Inr (d', p')"
        by simp
      from Cons.IH[OF this] show ?thesis by simp
    next
      case ne: False
      with True so sf Cons.prems
      have "compare_loop fs quene d (p @ [(f, ''Size does not match'')]) = Inr (d', p')"
        by simp
      from Cons.IH[OF this] show ?thesis by simp
    qed
  qed
qed

lemma del_loop_exit:
  "del_loop fs l c = Some r \<Longrightarrow> fst (snd r) = [] \<and> 10 \<le> snd (snd r)"
  by (rule del_loop.raw_induct[where P = "\<lambda>fs l c r. fst (snd r) = [] \<and> 10 \<le> snd (snd r)"])
     (auto split: if_splits prod.splits)

lemma compare_loop_error:
  "compare_loop fs quene d p = Inl e \<Longrightarrow> e = FileNotFoundError"
proof (induction quene arbitrary: d p)
  case Nil
  then show ?case by simp
next
  case (Cons f quene)
  then show ?case
    by (auto simp: os_path_getsize_def split: if_splits sum.splits option.splits)
qed

lemma reconciler_no_assertion_error:
  "delete_copy_pictures_from_destination fs path \<noteq> Some (Inl AssertionError)"
proof
  assume a: "delete_copy_pictures_from_destination fs path = Some (Inl AssertionError)"
  show False
  proof (cases "compare_loop fs (copy_candidates fs path) [] []")
    case (Inl e)
    from compare_loop_error[OF Inl] have "e \<noteq> AssertionError" by simp
    with a Inl show False by (simp add: delete_copy_pictures_from_destination_def)
  next
    case (Inr dp)
    obtain d p where dp: "dp = (d, p)" by (cases dp) auto
    from compare_loop_length[of fs "copy_candidates fs path" "[]" "[]" d p] Inr dp
    have len: "length d + length p = length (copy_candidates fs path)" by simp
    from a Inr dp obtain r where r: "del_loop fs d 0 = Some r"
      by (auto simp: delete_copy_pictures_from_destination_def split: option.splits)
    from del_loop_exit[OF r] obtain fs' c where "r = (fs', [], c)" by (cases r) auto
    with a Inr dp r len show False
      by (simp add: delete_copy_pictures_from_destination_def)
  qed
qed


lemma map_of_filter_fst:
  "map_of (filter (\<lambda>e. fst e \<noteq> p) es) q = (if q = p then None else map_of es q)"
  by (induction es) auto

lemma exists_os_remove:
  "os_path_exists (os_remove fs p) q =
     (if p \<in> set (lagging fs) then os_path_exists fs q else q \<noteq> p \<and> os_path_exists fs q)"
  by (simp add: os_remove_def os_path_exists_def map_of_filter_fst)

lemma lagging_os_remove: "lagging (os_remove fs p) = lagging fs"
  by (simp add: os_remove_def)

lemma filter_remove1_other: "\<not> P x \<Longrightarrow> filter P (remove1 x xs) = filter P xs"
  by (induction xs) auto

lemma pending_remove:
  assumes "lagging fs = []" and "f \<in> set l" and "os_path_exists fs f"
  shows "pending (os_remove fs f) l < pending fs l"
proof -
  have "filter (os_path_exists (os_remove fs f)) l
          = filter (\<lambda>q. q \<noteq> f) (filter (os_path_exists fs) l)"
    using assms(1) by (auto simp: exists_os_remove intro: filter_cong)
  moreover have "length (filter (\<lambda>q. q \<noteq> f) (filter (os_path_exists fs) l))
          < length (filter (os_path_exists fs) l)"
    by (rule length_filter_less[of f]) (use assms in auto)
  ultimately show ?thesis by (simp add: pending_def)
qed

lemma pending_drop:
  assumes "f \<in> set l" and "\<not> os_path_exists fs f"
  shows "pending fs (remove1 f l) < pending fs l"
proof -
  from assms(1) have "0 < length l" by (cases l) auto
  with assms show ?thesis by (simp add: pending_def filter_remove1_other length_remove1)
qed

lemma del_pass_pending:
  "lagging fs = [] \<Longrightarrow> del_pass fs l i = (fs', l') \<Longrightarrow>
     lagging fs' = [] \<and> pending fs' l' \<le> pending fs l \<and> (i < length l \<longrightarrow> pending fs' l' < pending fs l)"
proof (induction fs l i rule: del_pass.induct)
  case (1 fs l i)
  show ?case
  proof (cases "i < length l")
    case False
    with "1.prems" show ?thesis by (subst (asm) del_pass.simps) simp
  next
    case True
    let ?f = "l ! i"
    from True have mem: "?f \<in> set l" by simp
    show ?thesis
    proof (cases "os_path_exists fs ?f")
      case ex: True
      with True "1.prems"(2) have rec: "del_pass (os_remove fs ?f) l (i + 1) = (fs', l')"
        by (subst (asm) del_pass.simps) simp
      have lag: "lagging (os_remove fs ?f) = []" using "1.prems"(1) by (simp add: lagging_os_remove)
      from "1.IH"(1)[OF True refl ex lag rec]
      have "lagging fs' = []" "pending fs' l' \<le> pending (os_remove fs ?f) l" by auto
      moreover from pending_remove[OF "1.prems"(1) mem ex]
      have "pending (os_remove fs ?f) l < pending fs l" .
      ultimately show ?thesis by simp
    next
      case nex: False
      with True "1.prems"(2) have rec: "del_pass fs (remove1 ?f l) (i + 1) = (fs', l')"
        by (subst (asm) del_pass.simps) simp
      from "1.IH"(2)[OF True refl nex "1.prems"(1) rec]
      have "lagging fs' = []" "pending fs' l' \<le> pending fs (remove1 ?f l)" by auto
      moreover from pending_drop[OF mem nex] have "pending fs (remove1 ?f l) < pending fs l" .
      ultimately show ?thesis by simp
    qed
  qed
qed

lemma del_loop_returns:
  "lagging fs = [] \<Longrightarrow> \<exists>r. del_loop fs l c = Some r"
proof (induction "pending fs l + (10 - c)" arbitrary: fs l c rule: less_induct)
  case less
  show ?case
  proof (cases "length l > 0 \<or> c < 10")
    case False
    then show ?thesis by (subst del_loop.simps) simp
  next
    case True
    obtain fs' l' where dp: "del_pass fs l 0 = (fs', l')" by (cases "del_pass fs l 0") auto
    from del_pass_pending[OF less.prems dp]
    have lag: "lagging fs' = []" and le: "pending fs' l' \<le> pending fs l"
      and lt: "0 < length l \<longrightarrow> pending fs' l' < pending fs l" by auto
    have "pending fs' l' + (10 - (c + 1)) < pending fs l + (10 - c)"
    proof (cases "0 < length l")
      case True
      with lt show ?thesis by simp
    next
      case False
      with True have "c < 10" by simp
      with le show ?thesis by simp
    qed
    from less.hyps[OF this lag] obtain r where "del_loop fs' l' (c + 1) = Some r" by blast
    with True dp have "del_loop fs l c = Some r" by (subst del_loop.simps) simp
    then show ?thesis by blast
  qed
qed

lemma del_pass_lagging:
  "f \<in> set l \<Longrightarrow> f \<in> set (lagging fs) \<Longrightarrow> os_path_exists fs f \<Longrightarrow>
     del_pass fs l i = (fs', l') \<Longrightarrow>
     f \<in> set l' \<and> f \<in> set (lagging fs') \<and> os_path_exists fs' f"
proof (induction fs l i rule: del_pass.induct)
  case (1 fs l i)
  show ?case
  proof (cases "i < length l")
    case False
    with "1.prems"(4) have "fs' = fs \<and> l' = l" by (subst (asm) del_pass.simps) simp
    with "1.prems" show ?thesis by simp
  next
    case True
    let ?g = "l ! i"
    show ?thesis
    proof (cases "os_path_exists fs ?g")
      case ex: True
      with True "1.prems"(4) have rec: "del_pass (os_remove fs ?g) l (i + 1) = (fs', l')"
        by (subst (asm) del_pass.simps) simp
      have "f \<in> set (lagging (os_remove fs ?g))" using "1.prems"(2) by (simp add: lagging_os_remove)
      moreover have "os_path_exists (os_remove fs ?g) f"
        using "1.prems"(2,3) by (auto simp: exists_os_remove)
      ultimately show ?thesis using "1.IH"(1)[OF True refl ex "1.prems"(1) _ _ rec] by simp
    next
      case nex: False
      with True "1.prems"(4) have rec: "del_pass fs (remove1 ?g l) (i + 1) = (fs', l')"
        by (subst (asm) del_pass.simps) simp
      from nex "1.prems"(3) have "f \<noteq> ?g" by auto
      with "1.prems"(1) have "f \<in> set (remove1 ?g l)" by simp
      from "1.IH"(2)[OF True refl nex this "1.prems"(2,3) rec] show ?thesis .
    qed
  qed
qed

lemma del_loop_stuck:
  "del_loop fs l c = Some r \<Longrightarrow>
     \<not> (\<exists>f. f \<in> set l \<and> f \<in> set (lagging fs) \<and> os_path_exists fs f)"
proof (rule del_loop.raw_induct[where
         P = "\<lambda>fs l c r. \<not> (\<exists>f. f \<in> set l \<and> f \<in> set (lagging fs) \<and> os_path_exists fs f)"])
  fix dl :: "filesystem \<Rightarrow> string list \<Rightarrow> nat \<Rightarrow> (filesystem \<times> string list \<times> nat) option"
    and fs l c r
  assume IH: "\<And>fs l c r. dl fs l c = Some r \<Longrightarrow>
            \<not> (\<exists>f. f \<in> set l \<and> f \<in> set (lagging fs) \<and> os_path_exists fs f)"
    and body: "(if 0 < length l \<or> c < 10
                then case del_pass fs l 0 of (fs', l') \<Rightarrow> dl fs' l' (c + 1)
                else Some (fs, l, c)) = Some r"
  show "\<not> (\<exists>f. f \<in> set l \<and> f \<in> set (lagging fs) \<and> os_path_exists fs f)"
  proof
    assume "\<exists>f. f \<in> set l \<and> f \<in> set (lagging fs) \<and> os_path_exists fs f"
    then obtain f where f: "f \<in> set l" "f \<in> set (lagging fs)" "os_path_exists fs f" by blast
    obtain fs' l' where dp: "del_pass fs l 0 = (fs', l')" by (cases "del_pass fs l 0") auto
    from f(1) have "0 < length l" by (cases l) auto
    with body dp have "dl fs' l' (c + 1) = Some r" by simp
    from IH[OF this] del_pass_lagging[OF f dp] show False by blast
  qed
next
  show "del_loop fs l c = Some r \<Longrightarrow> del_loop fs l c = Some r" .
qed

lemma del_loop_diverges:
  assumes "f \<in> set l" and "f \<in> set (lagging fs)" and "os_path_exists fs f"
  shows "del_loop fs l c = None"
proof (cases "del_loop fs l c")
  case None
  then show ?thesis .
next
  case (Some r)
  from del_loop_stuck[OF Some] assms show ?thesis by blast
qed


lemma getsize_exists: "os_path_exists fs p \<Longrightarrow> \<exists>n. os_path_getsize fs p = Inr n"
  by (auto simp: os_path_exists_def os_path_getsize_def)

lemma isfile_exists: "os_path_isfile fs p \<Longrightarrow> os_path_exists fs p"
  by (auto simp: os_path_isfile_def os_path_exists_def split: option.splits)

lemma compare_loop_returns:
  "\<forall>f \<in> set quene. os_path_exists fs (org_file_of f) \<Longrightarrow>
     \<exists>dp. compare_loop fs quene d p = Inr dp"
proof (induction quene arbitrary: d p)
  case Nil
  then show ?case by simp
next
  case (Cons f quene)
  then obtain so where so: "os_path_getsize fs (org_file_of f) = Inr so"
    using getsize_exists[of fs "org_file_of f"] by auto
  show ?case
  proof (cases "os_path_isfile fs f")
    case False
    with Cons show ?thesis by simp
  next
    case True
    then obtain sf where sf: "os_path_getsize fs f = Inr sf"
      using getsize_exists[OF isfile_exists] by blast
    with True so Cons show ?thesis by simp
  qed
qed

text \<open>
  Claim C5. The assertion that closes the reconciler never fails, so every run that
  returns gives lists with \<open>len(candidates) = len(deleted) + len(problems)\<close>. And a run
  does return when no deletion lags and the presumed original of every candidate exists.
\<close>

theorem reconciler_count_invariant:
  "delete_copy_pictures_from_destination fs path \<noteq> Some (Inl AssertionError) \<and>
   (\<forall>fs' deleted problems.
      delete_copy_pictures_from_destination fs path = Some (Inr (fs', deleted, problems)) \<longrightarrow>
      length (copy_candidates fs path) = length deleted + length problems) \<and>
   (lagging fs = [] \<and> (\<forall>f \<in> set (copy_candidates fs path). os_path_exists fs (org_file_of f)) \<longrightarrow>
      (\<exists>fs' deleted problems.
         delete_copy_pictures_from_destination fs path = Some (Inr (fs', deleted, problems))))"
proof (intro conjI allI impI)
  show "delete_copy_pictures_from_destination fs path \<noteq> Some (Inl AssertionError)"
    by (rule reconciler_no_assertion_error)
next
  fix fs' deleted problems
  assume "delete_copy_pictures_from_destination fs path = Some (Inr (fs', deleted, problems))"
  then show "length (copy_candidates fs path) = length deleted + length problems"
    by (auto simp: delete_copy_pictures_from_destination_def Let_def
             split: sum.splits option.splits prod.splits if_splits)
next
  assume a: "lagging fs = [] \<and> (\<forall>f \<in> set (copy_candidates fs path). os_path_exists fs (org_file_of f))"
  then obtain dp where "compare_loop fs (copy_candidates fs path) [] [] = Inr dp"
    using compare_loop_returns[of "copy_candidates fs path" fs "[]" "[]"] by blast
  then obtain d p where cl: "compare_loop fs (copy_candidates fs path) [] [] = Inr (d, p)"
    by (cases dp) auto
  from a del_loop_returns[of fs d 0] obtain r where r: "del_loop fs d 0 = Some r" by blast
  from del_loop_exit[OF r] obtain fs' c where r': "r = (fs', [], c)" by (cases r) auto
  from compare_loop_length[OF cl] have "length d + length p = length (copy_candidates fs path)"
    by simp
  with cl r r' have "delete_copy_pictures_from_destination fs path = Some (Inr (fs', d, p))"
    by (simp add: delete_copy_pictures_from_destination_def)
  then show "\<exists>fs' deleted problems.
         delete_copy_pictures_from_destination fs path = Some (Inr (fs', deleted, problems))"
    by blast
qed

theorem reconciler_count_invariant_witness:
  "\<exists>fs' deleted problems.
     delete_copy_pictures_from_destination
       \<lparr>entries = [(''/dst'', Directory, 0), (''/dst/a.jpg'', RegularFile, 5),
                   (''/dst/a_Kopie(1).jpg'', RegularFile, 5), (''/dst/a_Kopie(2).jpg'', RegularFile, 7)],
        lagging = []\<rparr> ''/dst'' = Some (Inr (fs', deleted, problems)) \<and>
     length (copy_candidates
       \<lparr>entries = [(''/dst'', Directory, 0), (''/dst/a.jpg'', RegularFile, 5),
                   (''/dst/a_Kopie(1).jpg'', RegularFile, 5), (''/dst/a_Kopie(2).jpg'', RegularFile, 7)],
        lagging = []\<rparr> ''/dst'') = length deleted + length problems \<and>
     deleted = [''/dst/a_Kopie(1).jpg''] \<and>
     problems = [(''/dst/a_Kopie(2).jpg'', ''Size does not match'')]"
proof -
  let ?fs = "\<lparr>entries = [(''/dst'', Directory, 0), (''/dst/a.jpg'', RegularFile, 5),
                   (''/dst/a_Kopie(1).jpg'', RegularFile, 5), (''/dst/a_Kopie(2).jpg'', RegularFile, 7)],
        lagging = []\<rparr>"
  have ev: "delete_copy_pictures_from_destination ?fs ''/dst''
        = Some (Inr (\<lparr>entries = [(''/dst'', Directory, 0), (''/dst/a.jpg'', RegularFile, 5),
                                   (''/dst/a_Kopie(2).jpg'', RegularFile, 7)], lagging = []\<rparr>,
                     [''/dst/a_Kopie(1).jpg''],
                     [(''/dst/a_Kopie(2).jpg'', ''Size does not match'')]))"
    by code_simp
  with reconciler_count_invariant[of ?fs "''/dst''"] show ?thesis by blast
qed

text \<open>
  Claim C4 asks for a deletion pass that gives up after ten passes and reports what is
  left. The loop runs while \<open>len(del_files) > 0 or counter < 10\<close>: with one copy whose
  deletion does not take effect it never returns, and nothing is reported.
\<close>

theorem reconciler_lagging_file_never_returns:
  "delete_copy_pictures_from_destination
     \<lparr>entries = [(''/dst'', Directory, 0), (''/dst/a.jpg'', RegularFile, 5),
                 (''/dst/a_Kopie(1).jpg'', RegularFile, 5)],
      lagging = [''/dst/a_Kopie(1).jpg'']\<rparr> ''/dst'' = None"
proof -
  let ?fs = "\<lparr>entries = [(''/dst'', Directory, 0), (''/dst/a.jpg'', RegularFile, 5),
                 (''/dst/a_Kopie(1).jpg'', RegularFile, 5)],
      lagging = [''/dst/a_Kopie(1).jpg'']\<rparr>"
  have cl: "compare_loop ?fs (copy_candidates ?fs ''/dst'') [] [] = Inr ([''/dst/a_Kopie(1).jpg''], [])"
    by code_simp
  have "del_loop ?fs [''/dst/a_Kopie(1).jpg''] 0 = None"
    by (rule del_loop_diverges[of "''/dst/a_Kopie(1).jpg''"]) (simp_all add: os_path_exists_def)
  with cl show ?thesis by (simp add: delete_copy_pictures_from_destination_def)
qed

subsection \<open>The candidates and their presumed originals\<close>

lemma get_all_files_isfile:
  "f \<in> set (get_all_files_from_source fs path) \<Longrightarrow> os_path_isfile fs f"
  by (simp add: get_all_files_from_source_def)

lemma compare_loop_result:
  "compare_loop fs quene d p = Inr (d', p') \<Longrightarrow> \<forall>f \<in> set quene. os_path_isfile fs f \<Longrightarrow>
     d' = d @ filter (\<lambda>f. os_path_getsize fs f = os_path_getsize fs (org_file_of f)) quene \<and>
     p' = p @ map (\<lambda>f. (f, ''Size does not match''))
                (filter (\<lambda>f. os_path_getsize fs f \<noteq> os_path_getsize fs (org_file_of f)) quene)"
proof (induction quene arbitrary: d p)
  case Nil
  then show ?case by simp
next
  case (Cons f quene)
  from Cons.prems(2) have isf: "os_path_isfile fs f" and rest: "\<forall>g \<in> set quene. os_path_isfile fs g"
    by simp_all
  from isf Cons.prems(1) obtain so sf where
    so: "os_path_getsize fs (org_file_of f) = Inr so" and
    sf: "os_path_getsize fs f = Inr sf"
    by (auto split: sum.splits)
  show ?case
  proof (cases "sf = so")
    case True
    with isf so sf Cons.prems(1) have "compare_loop fs quene (d @ [f]) p = Inr (d', p')" by simp
    from Cons.IH[OF this rest] so sf True show ?thesis by simp
  next
    case False
    with isf so sf Cons.prems(1)
    have "compare_loop fs quene d (p @ [(f, ''Size does not match'')]) = Inr (d', p')" by simp
    from Cons.IH[OF this rest] so sf False show ?thesis by simp
  qed
qed

lemma map_of_os_remove:
  "q \<noteq> p \<Longrightarrow> map_of (entries (os_remove fs p)) q = map_of (entries fs) q"
  by (simp add: os_remove_def map_of_filter_fst)

lemma del_pass_gone:
  "del_pass fs l i = (fs', l') \<Longrightarrow>
     (\<forall>q. os_path_exists fs' q \<longrightarrow> os_path_exists fs q) \<and>
     set l' \<subseteq> set l \<and>
     (\<forall>f \<in> set l. f \<in> set l' \<or> \<not> os_path_exists fs' f) \<and>
     (\<forall>q. q \<notin> set l \<longrightarrow> map_of (entries fs') q = map_of (entries fs) q)"
proof (induction fs l i rule: del_pass.induct)
  case (1 fs l i)
  show ?case
  proof (cases "i < length l")
    case False
    with "1.prems" have "fs' = fs \<and> l' = l" by (subst (asm) del_pass.simps) simp
    then show ?thesis by simp
  next
    case True
    let ?g = "l ! i"
    from True have mem: "?g \<in> set l" by simp
    show ?thesis
    proof (cases "os_path_exists fs ?g")
      case ex: True
      with True "1.prems" have rec: "del_pass (os_remove fs ?g) l (i + 1) = (fs', l')"
        by (subst (asm) del_pass.simps) simp
      from "1.IH"(1)[OF True refl ex rec]
      have a: "\<forall>q. os_path_exists fs' q \<longrightarrow> os_path_exists (os_remove fs ?g) q"
        and s: "set l' \<subseteq> set l"
        and b: "\<forall>f \<in> set l. f \<in> set l' \<or> \<not> os_path_exists fs' f"
        and c: "\<forall>q. q \<notin> set l \<longrightarrow> map_of (entries fs') q = map_of (entries (os_remove fs ?g)) q"
        by blast+
      have "\<forall>q. os_path_exists fs' q \<longrightarrow> os_path_exists fs q"
        using a by (auto simp: exists_os_remove split: if_splits)
      moreover have "\<forall>q. q \<notin> set l \<longrightarrow> map_of (entries fs') q = map_of (entries fs) q"
      proof (intro allI impI)
        fix q assume q: "q \<notin> set l"
        with mem have "q \<noteq> ?g" by auto
        with c q show "map_of (entries fs') q = map_of (entries fs) q"
          by (simp add: map_of_os_remove)
      qed
      ultimately show ?thesis using b s by blast
    next
      case nex: False
      with True "1.prems" have rec: "del_pass fs (remove1 ?g l) (i + 1) = (fs', l')"
        by (subst (asm) del_pass.simps) simp
      from "1.IH"(2)[OF True refl nex rec]
      have a: "\<forall>q. os_path_exists fs' q \<longrightarrow> os_path_exists fs q"
        and s: "set l' \<subseteq> set (remove1 ?g l)"
        and b: "\<forall>f \<in> set (remove1 ?g l). f \<in> set l' \<or> \<not> os_path_exists fs' f"
        and c: "\<forall>q. q \<notin> set (remove1 ?g l) \<longrightarrow> map_of (entries fs') q = map_of (entries fs) q"
        by blast+
      have sub: "set (remove1 ?g l) \<subseteq> set l" by (rule set_remove1_subset)
      have "\<forall>f \<in> set l. f \<in> set l' \<or> \<not> os_path_exists fs' f"
      proof
        fix f assume f: "f \<in> set l"
        show "f \<in> set l' \<or> \<not> os_path_exists fs' f"
        proof (cases "f = ?g")
          case True
          with nex a show ?thesis by blast
        next
          case False
          with f have "f \<in> set (remove1 ?g l)" by simp
          with b show ?thesis by blast
        qed
      qed
      moreover have "\<forall>q. q \<notin> set l \<longrightarrow> map_of (entries fs') q = map_of (entries fs) q"
        using c sub by blast
      moreover have "set l' \<subseteq> set l" using s sub by blast
      ultimately show ?thesis using a by blast
    qed
  qed
qed

lemma del_loop_gone:
  "del_loop fs l c = Some r \<Longrightarrow>
     (\<forall>f \<in> set l. \<not> os_path_exists (fst r) f) \<and>
     (\<forall>q. os_path_exists (fst r) q \<longrightarrow> os_path_exists fs q) \<and>
     (\<forall>q. q \<notin> set l \<longrightarrow> map_of (entries (fst r)) q = map_of (entries fs) q)"
proof (rule del_loop.raw_induct[where
         P = "\<lambda>fs l c r. (\<forall>f \<in> set l. \<not> os_path_exists (fst r) f) \<and>
                (\<forall>q. os_path_exists (fst r) q \<longrightarrow> os_path_exists fs q) \<and>
                (\<forall>q. q \<notin> set l \<longrightarrow> map_of (entries (fst r)) q = map_of (entries fs) q)"])
  fix dl :: "filesystem \<Rightarrow> string list \<Rightarrow> nat \<Rightarrow> (filesystem \<times> string list \<times> nat) option"
    and fs l c r
  assume IH: "\<And>fs l c r. dl fs l c = Some r \<Longrightarrow>
            (\<forall>f \<in> set l. \<not> os_path_exists (fst r) f) \<and>
            (\<forall>q. os_path_exists (fst r) q \<longrightarrow> os_path_exists fs q) \<and>
            (\<forall>q. q \<notin> set l \<longrightarrow> map_of (entries (fst r)) q = map_of (entries fs) q)"
    and body: "(if 0 < length l \<or> c < 10
                then case del_pass fs l 0 of (fs', l') \<Rightarrow> dl fs' l' (c + 1)
                else Some (fs, l, c)) = Some r"
  show "(\<forall>f \<in> set l. \<not> os_path_exists (fst r) f) \<and>
        (\<forall>q. os_path_exists (fst r) q \<longrightarrow> os_path_exists fs q) \<and>
        (\<forall>q. q \<notin> set l \<longrightarrow> map_of (entries (fst r)) q = map_of (entries fs) q)"
  proof (cases "0 < length l \<or> c < 10")
    case False
    with body show ?thesis by auto
  next
    case True
    obtain fs1 l1 where dp: "del_pass fs l 0 = (fs1, l1)" by (cases "del_pass fs l 0") auto
    with True body have "dl fs1 l1 (c + 1) = Some r" by simp
    from IH[OF this]
    have b: "\<forall>f \<in> set l1. \<not> os_path_exists (fst r) f"
      and a: "\<forall>q. os_path_exists (fst r) q \<longrightarrow> os_path_exists fs1 q"
      and k: "\<forall>q. q \<notin> set l1 \<longrightarrow> map_of (entries (fst r)) q = map_of (entries fs1) q"
      by blast+
    from del_pass_gone[OF dp]
    have a1: "\<forall>q. os_path_exists fs1 q \<longrightarrow> os_path_exists fs q"
      and s1: "set l1 \<subseteq> set l"
      and b1: "\<forall>f \<in> set l. f \<in> set l1 \<or> \<not> os_path_exists fs1 f"
      and k1: "\<forall>q. q \<notin> set l \<longrightarrow> map_of (entries fs1) q = map_of (entries fs) q"
      by blast+
    have "\<forall>q. os_path_exists (fst r) q \<longrightarrow> os_path_exists fs q" using a a1 by blast
    moreover have "\<forall>f \<in> set l. \<not> os_path_exists (fst r) f" using a b b1 by blast
    moreover have "\<forall>q. q \<notin> set l \<longrightarrow> map_of (entries (fst r)) q = map_of (entries fs) q"
    proof (intro allI impI)
      fix q assume q: "q \<notin> set l"
      with s1 have "q \<notin> set l1" by blast
      with k k1 q show "map_of (entries (fst r)) q = map_of (entries fs) q" by simp
    qed
    ultimately show ?thesis by blast
  qed
next
  show "del_loop fs l c = Some r \<Longrightarrow> del_loop fs l c = Some r" .
qed

lemma copy_candidates_isfile: "f \<in> set (copy_candidates fs path) \<Longrightarrow> os_path_isfile fs f"
  by (simp add: copy_candidates_def)

lemma reconciler_result:
  assumes "delete_copy_pictures_from_destination fs path = Some (Inr (fs', deleted, problems))"
  shows "deleted = filter (\<lambda>f. os_path_getsize fs f = os_path_getsize fs (org_file_of f))
                     (copy_candidates fs path)"
    and "problems = map (\<lambda>f. (f, ''Size does not match''))
                      (filter (\<lambda>f. os_path_getsize fs f \<noteq> os_path_getsize fs (org_file_of f))
                         (copy_candidates fs path))"
    and "\<forall>f \<in> set deleted. \<not> os_path_exists fs' f"
    and "\<forall>q. q \<notin> set deleted \<longrightarrow> map_of (entries fs') q = map_of (entries fs) q"
proof -
  from assms obtain d p where cl: "compare_loop fs (copy_candidates fs path) [] [] = Inr (d, p)"
    by (auto simp: delete_copy_pictures_from_destination_def Let_def split: sum.splits)
  with assms obtain r where r: "del_loop fs d 0 = Some r"
    by (auto simp: delete_copy_pictures_from_destination_def Let_def split: option.splits)
  from del_loop_exit[OF r] obtain fs1 c where r': "r = (fs1, [], c)" by (cases r) auto
  from assms cl r r' have eq: "fs' = fs1" "deleted = d" "problems = p"
    by (auto simp: delete_copy_pictures_from_destination_def Let_def split: if_splits)
  from compare_loop_result[OF cl] copy_candidates_isfile[of _ fs path]
  have "d = filter (\<lambda>f. os_path_getsize fs f = os_path_getsize fs (org_file_of f))
              (copy_candidates fs path)"
    and "p = map (\<lambda>f. (f, ''Size does not match''))
               (filter (\<lambda>f. os_path_getsize fs f \<noteq> os_path_getsize fs (org_file_of f))
                  (copy_candidates fs path))"
    by auto
  with eq show "deleted = filter (\<lambda>f. os_path_getsize fs f = os_path_getsize fs (org_file_of f))
                     (copy_candidates fs path)"
    and "problems = map (\<lambda>f. (f, ''Size does not match''))
                      (filter (\<lambda>f. os_path_getsize fs f \<noteq> os_path_getsize fs (org_file_of f))
                         (copy_candidates fs path))"
    by simp_all
  from del_loop_gone[OF r] r' eq
  show "\<forall>f \<in> set deleted. \<not> os_path_exists fs' f"
    and "\<forall>q. q \<notin> set deleted \<longrightarrow> map_of (entries fs') q = map_of (entries fs) q"
    by simp_all
qed

text \<open>
  Claim C9. The reconciler takes as candidates exactly the files under the destination
  whose full path contains \<open>Kopie\<close> somewhere, in a directory name as well as in the
  file name; no \<open>_Kopie(index)\<close> suffix is asked for. Each of them is treated as a copy:
  on a run that returns, the candidates whose size is the size of their presumed original
  are the deleted files, in the order of the candidates, and they are gone from the file
  system; the other candidates are reported with \<open>Size does not match\<close>; no other path
  has changed. The presumed original of a path is the text before the first \<open>Kopie\<close>
  without its last character, then \<open>.\<close>, then the text after the last \<open>.\<close> of the
  path.
\<close>

theorem reconciler_candidates_by_substring:
  assumes "delete_copy_pictures_from_destination fs path = Some (Inr (fs', deleted, problems))"
  shows "set (copy_candidates fs path) =
           {f \<in> set (get_all_files_from_source fs path). \<exists>a b. f = a @ ''Kopie'' @ b} \<and>
         deleted = filter (\<lambda>f. os_path_getsize fs f = os_path_getsize fs (org_file_of f))
                     (copy_candidates fs path) \<and>
         problems = map (\<lambda>f. (f, ''Size does not match''))
                      (filter (\<lambda>f. os_path_getsize fs f \<noteq> os_path_getsize fs (org_file_of f))
                         (copy_candidates fs path)) \<and>
         (\<forall>f \<in> set deleted. \<not> os_path_exists fs' f) \<and>
         (\<forall>q. q \<notin> set deleted \<longrightarrow> map_of (entries fs') q = map_of (entries fs) q) \<and>
         (\<forall>a b c x. file = a @ ''Kopie'' @ b \<and> \<not> (\<exists>a' b'. a @ ''Kopi'' = a' @ ''Kopie'' @ b') \<and>
            file = c @ ''.'' @ x \<and> dot \<notin> set x \<longrightarrow>
            org_file_of file = butlast a @ ''.'' @ x)"
proof (intro conjI allI impI)
  show "set (copy_candidates fs path) =
     {f \<in> set (get_all_files_from_source fs path). \<exists>a b. f = a @ ''Kopie'' @ b}"
    using get_all_files_isfile[of _ fs path]
    by (auto simp: copy_candidates_def contains_iff)
next
  show "deleted = filter (\<lambda>f. os_path_getsize fs f = os_path_getsize fs (org_file_of f))
                     (copy_candidates fs path)"
    using assms by (rule reconciler_result(1))
next
  show "problems = map (\<lambda>f. (f, ''Size does not match''))
                      (filter (\<lambda>f. os_path_getsize fs f \<noteq> os_path_getsize fs (org_file_of f))
                         (copy_candidates fs path))"
    using assms by (rule reconciler_result(2))
next
  show "\<forall>f \<in> set deleted. \<not> os_path_exists fs' f"
    using assms by (rule reconciler_result(3))
next
  fix q assume "q \<notin> set deleted"
  with reconciler_result(4)[OF assms] show "map_of (entries fs') q = map_of (entries fs) q"
    by blast
next
  fix a b c x
  assume h: "file = a @ ''Kopie'' @ b \<and> \<not> (\<exists>a' b'. a @ ''Kopi'' = a' @ ''Kopie'' @ b') \<and>
       file = c @ ''.'' @ x \<and> dot \<notin> set x"
  then have f1: "file = a @ ''Kopie'' @ b" and f2': "file = c @ ''.'' @ x" and nx: "dot \<notin> set x"
    and first: "\<not> (\<exists>a' b'. a @ ''Kopi'' = a' @ ''Kopie'' @ b')"
    by blast+
  from f2' have f2: "file = c @ dot # x" by (simp add: dot_def)
  from first have "\<not> contains ''Kopie'' (a @ butlast ''Kopie'')" by (simp add: contains_iff)
  then have "before_first ''Kopie'' (a @ ''Kopie'' @ b) = a"
    by (intro before_first_eq) simp_all
  with f1 have bf: "before_first ''Kopie'' file = a" by simp
  from nx have "last (split_char dot (c @ dot # x)) = x" by (rule last_split_char)
  with f2 have "last (split_char dot file) = x" by simp
  with bf show "org_file_of file = butlast a @ ''.'' @ x"
    by (simp add: org_file_of_def)
qed

theorem reconciler_candidates_by_substring_witness:
  "\<exists>fs'.
     delete_copy_pictures_from_destination
       \<lparr>entries = [(''/dst'', Directory, 0), (''/dst.jpg'', RegularFile, 5),
                   (''/dst/Kopien'', Directory, 0), (''/dst/Kopien/x.jpg'', RegularFile, 5),
                   (''/dst/y.png'', RegularFile, 7), (''/dst/y_Kopie(1).png'', RegularFile, 4)],
        lagging = []\<rparr> ''/dst''
       = Some (Inr (fs', [''/dst/Kopien/x.jpg''],
                    [(''/dst/y_Kopie(1).png'', ''Size does not match'')])) \<and>
     \<not> os_path_exists fs' ''/dst/Kopien/x.jpg'' \<and>
     map_of (entries fs') ''/dst/y_Kopie(1).png'' = Some (RegularFile, 4) \<and>
     org_file_of ''/dst/Kopien/x.jpg'' = ''/dst.jpg''"
proof -
  let ?fs = "\<lparr>entries = [(''/dst'', Directory, 0), (''/dst.jpg'', RegularFile, 5),
                   (''/dst/Kopien'', Directory, 0), (''/dst/Kopien/x.jpg'', RegularFile, 5),
                   (''/dst/y.png'', RegularFile, 7), (''/dst/y_Kopie(1).png'', RegularFile, 4)],
        lagging = []\<rparr>"
  let ?fs' = "\<lparr>entries = [(''/dst'', Directory, 0), (''/dst.jpg'', RegularFile, 5),
                   (''/dst/Kopien'', Directory, 0),
                   (''/dst/y.png'', RegularFile, 7), (''/dst/y_Kopie(1).png'', RegularFile, 4)],
        lagging = []\<rparr>"
  have ev: "delete_copy_pictures_from_destination ?fs ''/dst''
        = Some (Inr (?fs', [''/dst/Kopien/x.jpg''],
                     [(''/dst/y_Kopie(1).png'', ''Size does not match'')]))"
    by code_simp
  note t = reconciler_candidates_by_substring[OF ev, of "''/dst/Kopien/x.jpg''"]
  from t have gone: "\<not> os_path_exists ?fs' ''/dst/Kopien/x.jpg''" by simp
  from t have "''/dst/y_Kopie(1).png'' \<notin> set [''/dst/Kopien/x.jpg''] \<longrightarrow>
      map_of (entries ?fs') ''/dst/y_Kopie(1).png'' = map_of (entries ?fs) ''/dst/y_Kopie(1).png''"
    by blast
  then have kept: "map_of (entries ?fs') ''/dst/y_Kopie(1).png'' = Some (RegularFile, 4)" by simp
  have "\<not> contains ''Kopie'' (''/dst/'' @ ''Kopi'')" by simp
  then have n: "\<not> (\<exists>a' b'. ''/dst/'' @ ''Kopi'' = a' @ ''Kopie'' @ b')"
    using contains_iff[of "''Kopie''" "''/dst/'' @ ''Kopi''"] by blast
  from t have "''/dst/Kopien/x.jpg'' = ''/dst/'' @ ''Kopie'' @ ''n/x.jpg'' \<and>
       \<not> (\<exists>a' b'. ''/dst/'' @ ''Kopi'' = a' @ ''Kopie'' @ b') \<and>
       ''/dst/Kopien/x.jpg'' = ''/dst/Kopien/x'' @ ''.'' @ ''jpg'' \<and> dot \<notin> set ''jpg'' \<longrightarrow>
       org_file_of ''/dst/Kopien/x.jpg'' = butlast ''/dst/'' @ ''.'' @ ''jpg''"
    by blast
  with n have org: "org_file_of ''/dst/Kopien/x.jpg'' = ''/dst.jpg''"
    by (simp add: dot_def)
  from ev gone kept org show ?thesis by blast
qed

section \<open>Properties of the pipeline\<close>

lemma digit_val_digit_char: "k < 10 \<Longrightarrow> digit_val (digit_char k) = Some k"
proof -
  assume "k < 10"
  then have "k \<in> {0, 1, 2, 3, 4, 5, 6, 7, 8, 9}" by auto
  then show ?thesis
    by (elim insertE emptyE) (simp_all add: digit_val_def digit_char_def upt_rec)
qed

lemma two_digits_pad2:
  "n < 100 \<Longrightarrow> P (n div 10) \<Longrightarrow> Q (n mod 10) \<Longrightarrow> two_digits P Q (pad2 n @ r) = Some (n, r)"
  by (simp add: two_digits_def pad2_def digit_val_digit_char)

lemma two_digits_pad2_fail:
  "n < 100 \<Longrightarrow> \<not> (P (n div 10) \<and> Q (n mod 10)) \<Longrightarrow> two_digits P Q (pad2 n @ r) = None"
  by (simp add: two_digits_def pad2_def digit_val_digit_char)

lemma directive_Y_pad4: "n < 10000 \<Longrightarrow> directive_Y (pad4 n @ r) = Some (n, r)"
proof -
  assume n: "n < 10000"
  then have "n div 100 < 100" "n mod 100 < 100" by auto
  then have "two_digits any_digit any_digit (pad2 (n div 100) @ pad2 (n mod 100) @ r)
               = Some (n div 100, pad2 (n mod 100) @ r)"
    and "two_digits any_digit any_digit (pad2 (n mod 100) @ r) = Some (n mod 100, r)"
    by (simp_all add: two_digits_pad2 any_digit_def)
  then show ?thesis by (simp add: directive_Y_def pad4_def)
qed

lemma directive_m_pad2: "1 \<le> n \<Longrightarrow> n \<le> 12 \<Longrightarrow> directive_m (pad2 n @ r) = Some (n, r)"
proof (cases "n < 10")
  case True
  assume "1 \<le> n" "n \<le> 12"
  with True show ?thesis
    by (simp add: directive_m_def two_digits_pad2 two_digits_pad2_fail)
next
  case False
  assume "1 \<le> n" "n \<le> 12"
  with False have "n div 10 = 1" "n mod 10 \<le> 2" by presburger+
  with \<open>n \<le> 12\<close> show ?thesis
    by (simp add: directive_m_def two_digits_pad2)
qed

lemma directive_d_pad2: "1 \<le> n \<Longrightarrow> n \<le> 31 \<Longrightarrow> directive_d (pad2 n @ r) = Some (n, r)"
proof -
  assume n: "1 \<le> n" "n \<le> 31"
  consider "n < 10" | "10 \<le> n \<and> n < 30" | "30 \<le> n" by linarith
  then show ?thesis
  proof cases
    case 1
    with n show ?thesis
      by (simp add: directive_d_def two_digits_pad2 two_digits_pad2_fail)
  next
    case 2
    then have "1 \<le> n div 10 \<and> n div 10 \<le> 2" by auto
    moreover from this have "n div 10 \<noteq> 3" by simp
    ultimately show ?thesis using n
      by (simp add: directive_d_def two_digits_pad2 two_digits_pad2_fail any_digit_def)
  next
    case 3
    with n have "n div 10 = 3" "n mod 10 \<le> 1" by presburger+
    with n show ?thesis by (simp add: directive_d_def two_digits_pad2)
  qed
qed

lemma directive_H_pad2: "n \<le> 23 \<Longrightarrow> directive_H (pad2 n @ r) = Some (n, r)"
proof (cases "n < 20")
  case True
  assume "n \<le> 23"
  from True have "n div 10 \<le> 1" by auto
  moreover from this have "n div 10 \<noteq> 2" by simp
  ultimately show ?thesis using True
    by (simp add: directive_H_def two_digits_pad2 two_digits_pad2_fail any_digit_def)
next
  case False
  assume "n \<le> 23"
  with False have "n div 10 = 2" "n mod 10 \<le> 3" by presburger+
  with \<open>n \<le> 23\<close> show ?thesis by (simp add: directive_H_def two_digits_pad2)
qed

lemma directive_M_pad2: "n \<le> 59 \<Longrightarrow> directive_M (pad2 n @ r) = Some (n, r)"
proof -
  assume "n \<le> 59"
  then have "n div 10 \<le> 5" "n < 100" by auto
  then show ?thesis by (simp add: directive_M_def two_digits_pad2 any_digit_def)
qed

lemma directive_S_pad2: "n \<le> 59 \<Longrightarrow> directive_S (pad2 n @ r) = Some (n, r)"
proof -
  assume "n \<le> 59"
  then have "n div 10 \<le> 5" "n < 100" by auto
  moreover from this have "n div 10 \<noteq> 6" by simp
  ultimately show ?thesis
    by (simp add: directive_S_def two_digits_pad2 two_digits_pad2_fail any_digit_def)
qed

lemma days_in_month_le: "days_in_month y m \<le> 31"
  by (simp add: days_in_month_def)

lemma pad2_first_digit: "n < 100 \<Longrightarrow> \<exists>c. pad2 n @ r = digit_char (n div 10) # c"
  by (simp add: pad2_def)

lemma strptime_exif_datetime_text:
  assumes "valid_datetime t"
  shows "strptime (exif_datetime_text t) = Some t"
proof -
  from assms have y: "year t < 10000" and m: "1 \<le> month t" "month t \<le> 12"
    and d: "1 \<le> day t" "day t \<le> 31" and H: "hour t \<le> 23" and M: "minute t \<le> 59"
    and S: "second t \<le> 59"
    using days_in_month_le[of "year t" "month t"] by (auto simp: valid_datetime_def)
  have sp: "\<And>r. \<not> is_space (hd (pad2 (hour t) @ r))"
  proof -
    fix r
    from H have "hour t div 10 mod 10 \<in> {0, 1, 2}" by auto
    then show "\<not> is_space (hd (pad2 (hour t) @ r))"
      by (auto simp: pad2_def digit_char_def is_space_def)
  qed
  have drop: "\<And>r. dropWhile is_space (pad2 (hour t) @ r) = pad2 (hour t) @ r"
    using sp by (simp add: pad2_def dropWhile_eq_self_iff)
  have rec: "\<lparr>year = year t, month = month t, day = day t, hour = hour t,
               minute = minute t, second = second t\<rparr> = t" by simp
  show ?thesis
    unfolding strptime_def exif_datetime_text_def
    using rec directive_Y_pad4[OF y] directive_m_pad2[OF m] directive_d_pad2[OF d]
      directive_H_pad2[OF H] directive_M_pad2[OF M] directive_S_pad2[OF S, of "[]"] assms drop
    by (simp add: literal_def spaces_def is_space_def Let_def valid_datetime_def)
qed











text \<open>
  Claim C7 asks for the text after the first \<open>.\<close> as the extension. The docstring of
  \<open>move_other_files\<close> says it extracts the data type of the file, and the program takes
  \<open>filename_full.split('.')[1]\<close>, the second piece only: \<open>archive.tar.gz\<close> is filed
  under \<open>tar_Files\<close> and renamed to \<open>archive.tar\<close>, its last extension lost.
\<close>

theorem other_file_keeps_second_piece_only:
  "spec_other_extension ''archive.tar.gz'' = ''tar.gz'' \<and>
   other_target \<lparr>destination_path = ''/dst'', include_year_in_destination_folder_level = ''true''\<rparr>
     ''/src/archive.tar.gz'' = Inr (''/dst/Other Files/tar_Files'', ''archive'', ''tar'') \<and>
   move_other_files
     \<lparr>destination_path = ''/dst'', include_year_in_destination_folder_level = ''true''\<rparr>
     \<lparr>entries = [(''/src'', Directory, 0), (''/src/archive.tar.gz'', RegularFile, 9)],
      lagging = []\<rparr>
     [''/src/archive.tar.gz'']
     = Inr (\<lparr>entries = [(''/src'', Directory, 0), (''/dst'', Directory, 0),
                          (''/dst/Other Files'', Directory, 0),
                          (''/dst/Other Files/tar_Files'', Directory, 0),
                          (''/dst/Other Files/tar_Files/archive.tar'', RegularFile, 9)],
             lagging = []\<rparr>,
            [''/src/archive.tar.gz''], [])"
proof -
  let ?cfg = "\<lparr>destination_path = ''/dst'', include_year_in_destination_folder_level = ''true''\<rparr>"
  let ?fs = "\<lparr>entries = [(''/src'', Directory, 0), (''/src/archive.tar.gz'', RegularFile, 9)],
              lagging = []\<rparr>"
  let ?fs1 = "\<lparr>entries = [(''/src'', Directory, 0), (''/src/archive.tar.gz'', RegularFile, 9),
                          (''/dst'', Directory, 0), (''/dst/Other Files'', Directory, 0),
                          (''/dst/Other Files/tar_Files'', Directory, 0)], lagging = []\<rparr>"
  have s: "spec_other_extension ''archive.tar.gz'' = ''tar.gz''"
    by code_simp
  have t: "other_target ?cfg ''/src/archive.tar.gz''
             = Inr (''/dst/Other Files/tar_Files'', ''archive'', ''tar'')"
    by code_simp
  have e: "\<not> os_path_exists ?fs ''/dst/Other Files/tar_Files''" by code_simp
  have mk: "os_makedirs ?fs ''/dst/Other Files/tar_Files'' = Inr ?fs1" by code_simp
  have c: "create_dst_path_for_file ?fs1 ''/dst/Other Files/tar_Files'' ''archive'' ''tar''
             = Inr (?fs1, ''/dst/Other Files/tar_Files/archive.tar'')"
    by code_simp
  have m: "shutil_move ?fs1 ''/src/archive.tar.gz'' ''/dst/Other Files/tar_Files/archive.tar''
             = Inr \<lparr>entries = [(''/src'', Directory, 0), (''/dst'', Directory, 0),
                          (''/dst/Other Files'', Directory, 0),
                          (''/dst/Other Files/tar_Files'', Directory, 0),
                          (''/dst/Other Files/tar_Files/archive.tar'', RegularFile, 9)],
             lagging = []\<rparr>"
    by code_simp
  from t e mk c m have "move_other_files ?cfg ?fs [''/src/archive.tar.gz'']
     = Inr (\<lparr>entries = [(''/src'', Directory, 0), (''/dst'', Directory, 0),
                          (''/dst/Other Files'', Directory, 0),
                          (''/dst/Other Files/tar_Files'', Directory, 0),
                          (''/dst/Other Files/tar_Files/archive.tar'', RegularFile, 9)],
             lagging = []\<rparr>,
            [''/src/archive.tar.gz''], [])"
    by (simp add: move_other_files_def)
  with s t show ?thesis by simp
qed

text \<open>
  A file name without a \<open>.\<close> has no second piece: \<open>split('.')[1]\<close> raises, outside any
  \<open>try\<close>, and the run of \<open>move_other_files\<close> ends there.
\<close>

lemma other_file_without_dot_raises:
  "move_other_files
     \<lparr>destination_path = ''/dst'', include_year_in_destination_folder_level = ''true''\<rparr>
     \<lparr>entries = [(''/src'', Directory, 0), (''/src/README'', RegularFile, 9),
                 (''/src/notes.txt'', RegularFile, 4)], lagging = []\<rparr>
     [''/src/README'', ''/src/notes.txt'']
     = Inl IndexError"
  by code_simp



lemma read_exif_capture_time:
  assumes "exifdata img = Some tags"
    and "build_exif_dict tags Map.empty = Some exif_dict"
    and "exif_dict (Name ''DateTime'') = Some (Text (exif_datetime_text t))"
    and "valid_datetime t"
    and "image_format img = Some fmt"
  shows "read_exif img =
           Some (year_str_of t, year_month_str_of t, image_filename_of t, lower fmt)"
  using assms by (simp add: read_exif_def strptime_exif_datetime_text)











text \<open>
  When the month directory is a regular file, \<open>os.path.exists\<close> is true of it and the
  resolver makes no directory; \<open>shutil.move\<close> raises, and the image is recorded as a
  problem where it was.
\<close>

lemma image_month_directory_is_a_file:
  "extract_exif_from_image_and_move_to_dest_folder
     \<lparr>destination_path = ''/dst'', include_year_in_destination_folder_level = ''True''\<rparr>
     (\<lambda>p. if p = ''/src/photo.jpg''
          then Some \<lparr>exifdata = Some [(306, Text ''2021:05:03 10:15:00'')],
                     image_format = Some ''JPEG''\<rparr>
          else None)
     \<lparr>entries = [(''/src'', Directory, 0), (''/src/photo.jpg'', RegularFile, 9),
                 (''/dst'', Directory, 0), (''/dst/2021'', Directory, 0),
                 (''/dst/2021/2021_05'', RegularFile, 1)], lagging = []\<rparr>
     [''/src/photo.jpg'']
     = Inr (\<lparr>entries = [(''/src'', Directory, 0), (''/src/photo.jpg'', RegularFile, 9),
                          (''/dst'', Directory, 0), (''/dst/2021'', Directory, 0),
                          (''/dst/2021/2021_05'', RegularFile, 1)], lagging = []\<rparr>,
            [], [], [''/src/photo.jpg''])"
proof -
  let ?cfg = "\<lparr>destination_path = ''/dst'', include_year_in_destination_folder_level = ''True''\<rparr>"
  let ?img = "\<lparr>exifdata = Some [(306, Text ''2021:05:03 10:15:00'')], image_format = Some ''JPEG''\<rparr>"
  let ?open = "\<lambda>p. if p = ''/src/photo.jpg'' then Some ?img else None"
  let ?fs = "\<lparr>entries = [(''/src'', Directory, 0), (''/src/photo.jpg'', RegularFile, 9),
                 (''/dst'', Directory, 0), (''/dst/2021'', Directory, 0),
                 (''/dst/2021/2021_05'', RegularFile, 1)], lagging = []\<rparr>"
  let ?t = "\<lparr>year = 2021, month = 5, day = 3, hour = 10, minute = 15, second = 0\<rparr>"
  let ?dict = "[Name ''DateTime'' \<mapsto> Text ''2021:05:03 10:15:00'']"
  have rendered: "exif_datetime_text ?t = ''2021:05:03 10:15:00''" by code_simp
  have names: "year_str_of ?t = ''2021''" "year_month_str_of ?t = ''2021_05''"
    "image_filename_of ?t = ''IMG_20210503_101500''" "lower ''JPEG'' = ''jpeg''"
    by code_simp+
  have "read_exif ?img
          = Some (year_str_of ?t, year_month_str_of ?t, image_filename_of ?t, lower ''JPEG'')"
  proof (rule read_exif_capture_time[where exif_dict = ?dict])
    show "exifdata ?img = Some [(306, Text ''2021:05:03 10:15:00'')]" by simp
    show "build_exif_dict [(306, Text ''2021:05:03 10:15:00'')] Map.empty = Some ?dict"
      by (simp add: TAGS_get_def TAGS_def)
    show "?dict (Name ''DateTime'') = Some (Text (exif_datetime_text ?t))" by (simp add: rendered)
    show "valid_datetime ?t" by (simp add: valid_datetime_def days_in_month_def)
    show "image_format ?img = Some ''JPEG''" by simp
  qed
  then have r: "read_exif ?img = Some (''2021'', ''2021_05'', ''IMG_20210503_101500'', ''jpeg'')"
    by (simp only: names)
  have iy: "include_year_of ?cfg" by code_simp
  have j: "os_path_join (os_path_join ''/dst'' ''2021'') ''2021_05'' = ''/dst/2021/2021_05''"
    by code_simp
  from r iy j have t: "image_target ?cfg ?open False ''/src/photo.jpg''
          = Inr (True, ''/dst/2021/2021_05'', ''IMG_20210503_101500'', ''jpeg'')"
    by (simp add: image_target_def)
  have c: "create_dst_path_for_file ?fs ''/dst/2021/2021_05'' ''IMG_20210503_101500'' ''jpeg''
          = Inr (?fs, ''/dst/2021/2021_05/IMG_20210503_101500.jpeg'')"
    by code_simp
  have m: "shutil_move ?fs ''/src/photo.jpg'' ''/dst/2021/2021_05/IMG_20210503_101500.jpeg''
          = Inl NotADirectoryError"
    by code_simp
  from t c m show ?thesis
    by (simp add: extract_exif_from_image_and_move_to_dest_folder_def)
qed

text \<open>
  Claim C3 asks that no failure on one file aborts the batch. When the first image of a
  batch cannot be opened, the handler itself raises (it closes an image that was never
  bound) and the second image is never looked at. In the reconciler, a copy whose
  presumed original is missing makes \<open>os.path.getsize\<close> raise, and the run ends without
  comparing the other copy.
\<close>

theorem unopened_image_aborts_batch:
  "extract_exif_from_image_and_move_to_dest_folder
     \<lparr>destination_path = ''/dst'', include_year_in_destination_folder_level = ''True''\<rparr>
     (\<lambda>p. if p = ''/src/b.jpg''
          then Some \<lparr>exifdata = Some [(306, Text ''2021:05:03 10:15:00'')],
                     image_format = Some ''JPEG''\<rparr>
          else None)
     \<lparr>entries = [(''/src'', Directory, 0), (''/src/a.jpg'', RegularFile, 4),
                 (''/src/b.jpg'', RegularFile, 9)], lagging = []\<rparr>
     [''/src/a.jpg'', ''/src/b.jpg'']
     = Inl UnboundLocalError \<and>
   delete_copy_pictures_from_destination
     \<lparr>entries = [(''/dst'', Directory, 0), (''/dst/a_Kopie(1).jpg'', RegularFile, 5),
                 (''/dst/b.jpg'', RegularFile, 7), (''/dst/b_Kopie(1).jpg'', RegularFile, 7)],
      lagging = []\<rparr> ''/dst''
     = Some (Inl FileNotFoundError)"
  by code_simp

section \<open>Properties of the pruner\<close>

lemma join_longer:
  "name \<noteq> [] \<Longrightarrow> slash \<notin> set name \<Longrightarrow> length p < length (os_path_join p name)"
  by (cases name) (auto simp: os_path_join_def)

lemma removed_were_empty:
  "walk_remove directory dirpath t = (removed, r) \<Longrightarrow>
     \<forall>p \<in> set removed. p \<noteq> directory \<and> (p, Dir [] []) \<in> set (dirs_of dirpath t)"
  "walk_children directory dirpath subs = (removed, subs') \<Longrightarrow>
     \<forall>p \<in> set removed. p \<noteq> directory \<and> (p, Dir [] []) \<in> set (dirs_of_children dirpath subs)"
proof (induction directory dirpath t and directory dirpath subs
       arbitrary: removed r and removed subs' rule: walk_remove_walk_children.induct)
  case (1 directory dirpath filenames subs)
  obtain rm subs1 where wc: "walk_children directory dirpath subs = (rm, subs1)"
    by (cases "walk_children directory dirpath subs") auto
  from "1.IH"[OF refl wc]
  have ih: "\<forall>p \<in> set rm. p \<noteq> directory \<and> (p, Dir [] []) \<in> set (dirs_of_children dirpath subs)" .
  show ?case
  proof (cases "map fst subs = [] \<and> filenames = [] \<and> dirpath \<noteq> directory")
    case True
    with wc "1.prems" have "removed = rm @ [dirpath]" by simp
    with True ih show ?thesis by auto
  next
    case False
    with wc "1.prems" have "removed = rm" by (auto split: if_splits)
    with ih show ?thesis by auto
  qed
next
  case (2 directory dirpath)
  then show ?case by simp
next
  case (3 directory dirpath name sub rest)
  obtain r1 s1 where w1: "walk_remove directory (os_path_join dirpath name) sub = (r1, s1)"
    by (cases "walk_remove directory (os_path_join dirpath name) sub") auto
  obtain r2 rest2 where w2: "walk_children directory dirpath rest = (r2, rest2)"
    by (cases "walk_children directory dirpath rest") auto
  from "3.IH"(1)[OF w1]
  have a: "\<forall>p \<in> set r1. p \<noteq> directory \<and> (p, Dir [] []) \<in> set (dirs_of (os_path_join dirpath name) sub)" .
  from "3.IH"(2)[OF w1[symmetric] refl w2]
  have b: "\<forall>p \<in> set r2. p \<noteq> directory \<and> (p, Dir [] []) \<in> set (dirs_of_children dirpath rest)" .
  from w1 w2 "3.prems" have "removed = r1 @ r2" by simp
  with a b show ?case by auto
qed

lemma root_kept:
  "walk_remove directory directory t = (removed, r) \<Longrightarrow>
     \<exists>subs'. r = Some (Dir (filenames_of t) subs')"
  by (cases t) (auto split: prod.splits)

lemma run_keeps_root:
  "\<exists>t'. snd (delete_empty_folders directory levels (Some t)) = Some t' \<and>
         filenames_of t' = filenames_of t"
proof (induction levels arbitrary: t)
  case 0
  then show ?case by simp
next
  case (Suc levels)
  obtain rm r where w: "walk_remove directory directory t = (rm, r)"
    by (cases "walk_remove directory directory t") auto
  from root_kept[OF w] obtain subs' where r: "r = Some (Dir (filenames_of t) subs')" by blast
  from Suc.IH[of "Dir (filenames_of t) subs'"] w r show ?case
    by (auto simp: prune_pass_def split: prod.splits)
qed

lemma run_step:
  "prune_pass directory root = (rm, root') \<Longrightarrow>
     snd (delete_empty_folders directory (Suc i) root) = snd (delete_empty_folders directory i root')"
  by (simp split: prod.splits)

lemma run_removed_were_empty:
  "p \<in> set (fst (delete_empty_folders directory levels root)) \<Longrightarrow>
     p \<noteq> directory \<and>
     (\<exists>i < levels. \<exists>t'. snd (delete_empty_folders directory i root) = Some t' \<and>
        (p, Dir [] []) \<in> set (dirs_of directory t'))"
proof (induction levels arbitrary: root)
  case 0
  then show ?case by simp
next
  case (Suc levels)
  obtain rm root' where pp: "prune_pass directory root = (rm, root')"
    by (cases "prune_pass directory root") auto
  obtain rm' root'' where de: "delete_empty_folders directory levels root' = (rm', root'')"
    by (cases "delete_empty_folders directory levels root'") auto
  from pp de Suc.prems have "p \<in> set rm \<or> p \<in> set rm'" by simp
  then show ?case
  proof
    assume p: "p \<in> set rm"
    with pp obtain t where t: "root = Some t" and w: "walk_remove directory directory t = (rm, root')"
      by (cases root) (auto simp: prune_pass_def)
    from removed_were_empty(1)[OF w] p
    have "p \<noteq> directory \<and> (p, Dir [] []) \<in> set (dirs_of directory t)" by blast
    moreover have "snd (delete_empty_folders directory 0 root) = Some t" using t by simp
    ultimately show ?thesis by blast
  next
    assume "p \<in> set rm'"
    with de have "p \<in> set (fst (delete_empty_folders directory levels root'))" by simp
    from Suc.IH[OF this] obtain i t' where i: "i < levels" and
      s: "snd (delete_empty_folders directory i root') = Some t'" and
      e: "(p, Dir [] []) \<in> set (dirs_of directory t')" and ne: "p \<noteq> directory"
      by blast
    from s run_step[OF pp, of i] have "snd (delete_empty_folders directory (Suc i) root) = Some t'"
      by simp
    with i e ne show ?thesis by (intro conjI exI[of _ "Suc i"] exI[of _ t']) auto
  qed
qed


lemma depth_children_0: "depth_children subs = 0 \<longleftrightarrow> subs = []"
  by (cases subs) auto

lemma bare_pass:
  "bare t \<Longrightarrow> proper_names t \<Longrightarrow> length directory < length dirpath \<Longrightarrow>
     walk_remove directory dirpath t = (removed, r) \<Longrightarrow>
     (case r of None \<Rightarrow> True | Some t' \<Rightarrow> bare t' \<and> proper_names t' \<and> depth t' < depth t)"
  "bare_children subs \<Longrightarrow> proper_names_children subs \<Longrightarrow> length directory \<le> length dirpath \<Longrightarrow>
     walk_children directory dirpath subs = (removed, subs') \<Longrightarrow>
     bare_children subs' \<and> proper_names_children subs' \<and>
     (subs \<noteq> [] \<longrightarrow> depth_children subs' < depth_children subs) \<and>
     (subs = [] \<longrightarrow> subs' = [])"
proof (induction directory dirpath t and directory dirpath subs
       arbitrary: removed r and removed subs' rule: walk_remove_walk_children.induct)
  case (1 directory dirpath filenames subs)
  obtain rm subs1 where wc: "walk_children directory dirpath subs = (rm, subs1)"
    by (cases "walk_children directory dirpath subs") auto
  from "1.prems" have b: "bare_children subs" "proper_names_children subs" "filenames = []"
    and len: "length directory \<le> length dirpath" "dirpath \<noteq> directory" by auto
  from "1.IH"[OF refl b(1,2) len(1) wc]
  have ih: "bare_children subs1" "proper_names_children subs1"
    "subs \<noteq> [] \<longrightarrow> depth_children subs1 < depth_children subs" by auto
  show ?case
  proof (cases "subs = []")
    case True
    with wc "1.prems"(4) b(3) len(2) have "r = None" by simp
    then show ?thesis by simp
  next
    case False
    with wc "1.prems"(4) have "r = Some (Dir filenames subs1)" by simp
    with ih b(3) False show ?thesis by simp
  qed
next
  case (2 directory dirpath)
  then show ?case by simp
next
  case (3 directory dirpath name sub rest)
  obtain r1 s1 where w1: "walk_remove directory (os_path_join dirpath name) sub = (r1, s1)"
    by (cases "walk_remove directory (os_path_join dirpath name) sub") auto
  obtain r2 rest2 where w2: "walk_children directory dirpath rest = (r2, rest2)"
    by (cases "walk_children directory dirpath rest") auto
  from "3.prems" have p: "bare sub" "proper_names sub" "bare_children rest"
    "proper_names_children rest" "name \<noteq> []" "slash \<notin> set name" by auto
  from join_longer[OF p(5,6), of dirpath] "3.prems"(3)
  have len: "length directory < length (os_path_join dirpath name)" by simp
  from "3.IH"(1)[OF p(1,2) len w1]
  have a: "case s1 of None \<Rightarrow> True | Some t' \<Rightarrow> bare t' \<and> proper_names t' \<and> depth t' < depth sub" .
  from "3.IH"(2)[OF w1[symmetric] refl p(3,4) "3.prems"(3) w2]
  have b: "bare_children rest2" "proper_names_children rest2"
    "rest \<noteq> [] \<longrightarrow> depth_children rest2 < depth_children rest" "rest = [] \<longrightarrow> rest2 = []"
    by auto
  from w1 w2 "3.prems"(4)
  have s: "subs' = (case s1 of None \<Rightarrow> rest2 | Some d \<Rightarrow> (name, d) # rest2)" by simp
  have d2: "depth_children rest2 \<le> depth_children rest"
    using b(3,4) by (cases "rest = []") auto
  show ?case
  proof (cases s1)
    case None
    with s b d2 show ?thesis by (auto simp: less_Suc_eq_le max_def)
  next
    case (Some d)
    with a have "bare d" "proper_names d" "depth d < depth sub" by auto
    with s Some b p d2 show ?thesis by (auto simp: max_def)
  qed
qed

lemma bare_root_pass:
  assumes "bare_children subs" and "proper_names_children subs"
  shows "\<exists>removed subs'. prune_pass directory (Some (Dir filenames subs)) = (removed, Some (Dir filenames subs')) \<and>
           bare_children subs' \<and> proper_names_children subs' \<and>
           (subs \<noteq> [] \<longrightarrow> depth_children subs' < depth_children subs) \<and>
           (subs = [] \<longrightarrow> subs' = [])"
proof -
  obtain rm subs1 where wc: "walk_children directory directory subs = (rm, subs1)"
    by (cases "walk_children directory directory subs") auto
  from bare_pass(2)[OF assms _ wc] have
    "bare_children subs1 \<and> proper_names_children subs1 \<and>
     (subs \<noteq> [] \<longrightarrow> depth_children subs1 < depth_children subs) \<and> (subs = [] \<longrightarrow> subs1 = [])"
    by simp
  moreover from wc have "prune_pass directory (Some (Dir filenames subs)) = (rm, Some (Dir filenames subs1))"
    by (simp add: prune_pass_def)
  ultimately show ?thesis by blast
qed

lemma run_collapses:
  "bare_children subs \<Longrightarrow> proper_names_children subs \<Longrightarrow> depth_children subs \<le> levels \<Longrightarrow>
     snd (delete_empty_folders directory levels (Some (Dir filenames subs))) = Some (Dir filenames [])"
proof (induction levels arbitrary: subs)
  case 0
  then show ?case by (simp add: depth_children_0)
next
  case (Suc levels)
  from bare_root_pass[OF Suc.prems(1,2), of directory filenames] obtain removed subs' where
    pp: "prune_pass directory (Some (Dir filenames subs)) = (removed, Some (Dir filenames subs'))" and
    b: "bare_children subs'" "proper_names_children subs'" and
    d: "subs \<noteq> [] \<longrightarrow> depth_children subs' < depth_children subs" "subs = [] \<longrightarrow> subs' = []"
    by blast
  have "depth_children subs' \<le> levels"
  proof (cases "subs = []")
    case True
    with d show ?thesis by simp
  next
    case False
    with d Suc.prems(3) show ?thesis by simp
  qed
  from Suc.IH[OF b this] run_step[OF pp, of levels] show ?case by simp
qed

text \<open>
  Claim C8. In a run of \<open>levels\<close> passes from the root \<open>directory\<close>: every path given to
  \<open>os.rmdir\<close> is another path than the root's and is, in the tree as it stood at the
  start of the pass that removed it, a directory without files and without
  subdirectories (nothing is added during a pass, so it is empty when it is visited).
  The root is still there after the run, with its files. And the repetition reaches the
  parents: when the subdirectories of the root hold no file at all and are nested no
  deeper than \<open>levels\<close>, all of them are gone after the run.
\<close>

theorem pruner_removes_only_empty_keeps_root:
  "(\<forall>p \<in> set (fst (delete_empty_folders directory levels (Some t))).
      p \<noteq> directory \<and>
      (\<exists>i < levels. \<exists>t'. snd (delete_empty_folders directory i (Some t)) = Some t' \<and>
         (p, Dir [] []) \<in> set (dirs_of directory t'))) \<and>
   (\<exists>t'. snd (delete_empty_folders directory levels (Some t)) = Some t' \<and>
      filenames_of t' = filenames_of t) \<and>
   (proper_names t \<and> bare_children (subdirs_of t) \<and> depth t \<le> levels \<longrightarrow>
      snd (delete_empty_folders directory levels (Some t)) = Some (Dir (filenames_of t) []))"
proof (intro conjI ballI impI)
  fix p
  assume "p \<in> set (fst (delete_empty_folders directory levels (Some t)))"
  then show "p \<noteq> directory" 
    and "\<exists>i < levels. \<exists>t'. snd (delete_empty_folders directory i (Some t)) = Some t' \<and>
         (p, Dir [] []) \<in> set (dirs_of directory t')"
    using run_removed_were_empty by blast+
next
  show "\<exists>t'. snd (delete_empty_folders directory levels (Some t)) = Some t' \<and>
      filenames_of t' = filenames_of t"
    by (rule run_keeps_root)
next
  assume "proper_names t \<and> bare_children (subdirs_of t) \<and> depth t \<le> levels"
  then show "snd (delete_empty_folders directory levels (Some t)) = Some (Dir (filenames_of t) [])"
    using run_collapses[of "subdirs_of t" levels directory "filenames_of t"]
    by (cases t) auto
qed

theorem pruner_removes_only_empty_keeps_root_witness:
  "snd (delete_empty_folders ''/src'' 2
          (Some (Dir [''keep.txt''] [(''a'', Dir [] [(''b'', Dir [] [])])])))
     = Some (Dir [''keep.txt''] []) \<and>
   fst (delete_empty_folders ''/src'' 2
          (Some (Dir [''keep.txt''] [(''a'', Dir [] [(''b'', Dir [] [])])])))
     = [''/src/a/b'', ''/src/a''] \<and>
   snd (delete_empty_folders ''/src'' 1
          (Some (Dir [''keep.txt''] [(''a'', Dir [] [(''b'', Dir [] [])])])))
     = Some (Dir [''keep.txt''] [(''a'', Dir [] [])])"
proof -
  let ?t = "Dir [''keep.txt''] [(''a'', Dir [] [(''b'', Dir [] [])])]"
  have h: "proper_names ?t \<and> bare_children (subdirs_of ?t) \<and> depth ?t \<le> 2"
    by (simp add: slash_def)
  from pruner_removes_only_empty_keeps_root[of "''/src''" 2 ?t] h
  have "snd (delete_empty_folders ''/src'' 2 (Some ?t)) = Some (Dir (filenames_of ?t) [])"
    by blast
  moreover have "fst (delete_empty_folders ''/src'' 2 (Some ?t)) = [''/src/a/b'', ''/src/a'']"
    by code_simp
  moreover have "snd (delete_empty_folders ''/src'' 1 (Some ?t)) = Some (Dir [''keep.txt''] [(''a'', Dir [] [])])"
    by code_simp
  ultimately show ?thesis by simp
qed

end
